theory Spec2Isabelle
  imports Main "HOL-Library.AList" "HOL-Library.Char_ord"
begin

chapter \<open>The model of fasthttp.hpp\<close>

section \<open>The C++ standard library, as far as fasthttp.hpp uses it\<close>

text \<open>
  A \<open>std::string\<close> is a sequence of bytes: \<^typ>\<open>string\<close>, a list of 8-bit
  \<^typ>\<open>char\<close>. The exceptions of the standard library are the values of \<open>error\<close>;
  a function that can throw returns \<open>error + 'a\<close>, with \<open>Inl\<close> for the exception,
  and \<open>err_bind\<close> passes an exception on as a C++ expression does.
\<close>

datatype error = OutOfRange | InvalidArgument

definition err_bind :: "error + 'a \<Rightarrow> ('a \<Rightarrow> error + 'b) \<Rightarrow> error + 'b" where
  "err_bind m f = (case m of Inl e \<Rightarrow> Inl e | Inr x \<Rightarrow> f x)"

subsection \<open>Positions and \<open>size_t\<close>\<close>

text \<open>
  A position in a string is a \<^typ>\<open>nat\<close>; where the source can get
  \<open>std::string::npos\<close> the model has a \<^typ>\<open>nat option\<close>, \<open>None\<close> for \<open>npos\<close>.
  \<open>size_t\<close> has 64 bits: \<open>npos\<close> is \<open>2^64 - 1\<close> and a subtraction that would go
  below zero wraps around (\<open>size_sub\<close>). Additions of small constants to positions
  inside a string are written without the wrap.
\<close>

definition npos :: nat where
  "npos = 2 ^ 64 - 1"

definition size_sub :: "nat \<Rightarrow> nat \<Rightarrow> nat" where
  "size_sub a b = (if b \<le> a then a - b else a + 2 ^ 64 - b)"

subsection \<open>Searching and slicing a string\<close>

text \<open>\<open>s.find(c)\<close>: the first index of the byte \<open>c\<close>.\<close>

fun find_char :: "string \<Rightarrow> char \<Rightarrow> nat option" where
  "find_char [] c = None"
| "find_char (x # xs) c = (if x = c then Some 0 else map_option Suc (find_char xs c))"

text \<open>\<open>s.find(p)\<close> for a string \<open>p\<close>: the first index at which \<open>p\<close> starts.\<close>

definition starts_with :: "string \<Rightarrow> string \<Rightarrow> bool" where
  "starts_with s p = (take (length p) s = p)"

fun find_str :: "string \<Rightarrow> string \<Rightarrow> nat option" where
  "find_str [] p = (if p = [] then Some 0 else None)"
| "find_str (x # xs) p =
     (if starts_with (x # xs) p then Some 0 else map_option Suc (find_str xs p))"

text \<open>
  \<open>s.find_first_not_of(cs)\<close> and \<open>s.find_last_not_of(cs)\<close>: the first and the last
  index of a byte that is not in \<open>cs\<close>.
\<close>

fun find_first_not_of :: "string \<Rightarrow> string \<Rightarrow> nat option" where
  "find_first_not_of [] cs = None"
| "find_first_not_of (x # xs) cs =
     (if x \<notin> set cs then Some 0 else map_option Suc (find_first_not_of xs cs))"

fun find_last_not_of :: "string \<Rightarrow> string \<Rightarrow> nat option" where
  "find_last_not_of [] cs = None"
| "find_last_not_of (x # xs) cs =
     (case find_last_not_of xs cs of
        Some k \<Rightarrow> Some (Suc k)
      | None \<Rightarrow> if x \<notin> set cs then Some 0 else None)"

text \<open>
  \<open>s.substr(pos, n)\<close> throws \<open>std::out_of_range\<close> when \<open>pos > s.size()\<close> and
  otherwise returns the bytes from \<open>pos\<close>, at most \<open>n\<close> of them; \<open>s.substr(pos)\<close>
  has \<open>n = npos\<close> and returns all of them.
\<close>

definition substr :: "string \<Rightarrow> nat \<Rightarrow> nat \<Rightarrow> error + string" where
  "substr s pos n = (if length s < pos then Inl OutOfRange else Inr (take n (drop pos s)))"

definition substr_from :: "string \<Rightarrow> nat \<Rightarrow> error + string" where
  "substr_from s pos = (if length s < pos then Inl OutOfRange else Inr (drop pos s))"

subsection \<open>Reading numbers: \<open>std::stoi\<close>, \<open>std::stoull\<close>, \<open>operator>>\<close>\<close>

text \<open>
  The three conversions skip leading white space (\<open>isspace\<close> of the "C" locale: the
  space and the bytes 9 to 13), accept one sign and then read digits as long as there
  are any; what follows the digits is left alone.
\<close>

definition isspace :: "char \<Rightarrow> bool" where
  "isspace c = (let n = of_char c :: nat in n = 32 \<or> (9 \<le> n \<and> n \<le> 13))"

definition split_sign :: "string \<Rightarrow> bool \<times> string" where
  "split_sign s = (case s of
      [] \<Rightarrow> (False, s)
    | c # r \<Rightarrow> if c = CHR ''-'' then (True, r) else if c = CHR ''+'' then (False, r)
              else (False, s))"

definition is_digit :: "char \<Rightarrow> bool" where
  "is_digit c = (CHR ''0'' \<le> c \<and> c \<le> CHR ''9'')"

definition dec_value :: "string \<Rightarrow> nat" where
  "dec_value ds = foldl (\<lambda>v c. 10 * v + (of_char c - 48)) 0 ds"

text \<open>
  \<open>std::stoi(s)\<close> (base 10): \<open>std::invalid_argument\<close> when no digit can be read,
  \<open>std::out_of_range\<close> when the number is outside \<open>int\<close> (32 bits).
\<close>

definition stoi :: "string \<Rightarrow> error + int" where
  "stoi s =
     (let (neg, s2) = split_sign (dropWhile isspace s);
          ds = takeWhile is_digit s2
      in if ds = [] then Inl InvalidArgument
         else let v = (if neg then - int (dec_value ds) else int (dec_value ds))
              in if v < - 2147483648 \<or> 2147483647 < v then Inl OutOfRange else Inr v)"

text \<open>
  \<open>std::stoull(s)\<close> (base 10): \<open>std::invalid_argument\<close> when no digit can be read,
  \<open>std::out_of_range\<close> when the digits exceed \<open>2^64 - 1\<close>; after a minus sign the
  number is negated in 64-bit unsigned arithmetic, as \<open>strtoull\<close> does.
\<close>

definition stoull :: "string \<Rightarrow> error + nat" where
  "stoull s =
     (let (neg, s2) = split_sign (dropWhile isspace s);
          ds = takeWhile is_digit s2
      in if ds = [] then Inl InvalidArgument
         else if 2 ^ 64 - 1 < dec_value ds then Inl OutOfRange
         else Inr (if neg then (2 ^ 64 - dec_value ds) mod 2 ^ 64 else dec_value ds))"

text \<open>
  \<open>iss >> std::hex >> hexValue\<close> for an \<open>int\<close>, on a fresh stream over \<open>s\<close>: white
  space, a sign and a \<open>0x\<close> prefix are accepted before the hexadecimal digits; the
  extraction fails (\<open>None\<close>) when no digit can be read or the number is outside
  \<open>int\<close>, and it stops, successfully, at the first byte that is not a digit.
\<close>

definition hex_digit_val :: "char \<Rightarrow> nat option" where
  "hex_digit_val c = (let n = of_char c :: nat in
     if 48 \<le> n \<and> n \<le> 57 then Some (n - 48)
     else if 65 \<le> n \<and> n \<le> 70 then Some (n - 55)
     else if 97 \<le> n \<and> n \<le> 102 then Some (n - 87)
     else None)"

definition is_hex_digit :: "char \<Rightarrow> bool" where
  "is_hex_digit c = (hex_digit_val c \<noteq> None)"

definition hex_value :: "string \<Rightarrow> nat" where
  "hex_value ds = foldl (\<lambda>v c. 16 * v + the (hex_digit_val c)) 0 ds"

definition skip_0x :: "string \<Rightarrow> string" where
  "skip_0x s = (case s of
      a # b # r \<Rightarrow> if a = CHR ''0'' \<and> (b = CHR ''x'' \<or> b = CHR ''X'') then r else s
    | _ \<Rightarrow> s)"

definition extract_hex_int :: "string \<Rightarrow> int option" where
  "extract_hex_int s =
     (let (neg, s2) = split_sign (dropWhile isspace s);
          ds = takeWhile is_hex_digit (skip_0x s2)
      in if ds = [] then None
         else let v = (if neg then - int (hex_value ds) else int (hex_value ds))
              in if v < - 2147483648 \<or> 2147483647 < v then None else Some v)"

subsection \<open>Writing numbers: \<open>std::to_string\<close>, \<open>operator<<\<close>\<close>

text \<open>\<open>std::to_string(n)\<close> for a \<open>size_t\<close>: the decimal digits of \<open>n\<close>.\<close>

definition dec_digit :: "nat \<Rightarrow> char" where
  "dec_digit d = ''0123456789'' ! d"

function to_string :: "nat \<Rightarrow> string" where
  "to_string n = (if n < 10 then [dec_digit n]
                  else to_string (n div 10) @ [dec_digit (n mod 10)])"
  by pat_completeness auto
termination
  by (relation "measure id") auto

declare to_string.simps [simp del]

text \<open>
  \<open>os << std::hex << std::uppercase << n\<close>: the hexadecimal digits of \<open>n\<close> in upper
  case; \<open>std::setw(w)\<close> with the fill character \<open>f\<close> pads them on the left.
\<close>

definition upper_digit :: "nat \<Rightarrow> char" where
  "upper_digit d = ''0123456789ABCDEF'' ! d"

function hex_upper :: "nat \<Rightarrow> string" where
  "hex_upper n = (if n < 16 then [upper_digit n]
                  else hex_upper (n div 16) @ [upper_digit (n mod 16)])"
  by pat_completeness auto
termination
  by (relation "measure id") auto

declare hex_upper.simps [simp del]

definition setw_fill :: "nat \<Rightarrow> char \<Rightarrow> string \<Rightarrow> string" where
  "setw_fill w f s = replicate (w - length s) f @ s"

subsection \<open>\<open>std::istringstream\<close> and \<open>std::getline\<close>\<close>

text \<open>
  A string stream is its unread bytes and whether it is still \<open>good()\<close>.
  \<open>std::getline(iss, item, delim)\<close> reads up to the delimiter, which it consumes, or
  up to the end of the input, after which the stream is no longer good. It fails
  (\<open>None\<close>) on a stream that is not good and when there is nothing left to read.
\<close>

type_synonym istringstream = "string \<times> bool"

definition getline :: "istringstream \<Rightarrow> char \<Rightarrow> string option \<times> istringstream" where
  "getline iss delim =
     (case iss of (buf, good) \<Rightarrow>
        if \<not> good then (None, iss)
        else (case find_char buf delim of
                Some k \<Rightarrow> (Some (take k buf), (drop (Suc k) buf, True))
              | None \<Rightarrow> if buf = [] then (None, ([], False)) else (Some buf, ([], False))))"

text \<open>Every successful \<open>getline\<close> uses up some of the stream: the loops over it end.\<close>

definition unread :: "istringstream \<Rightarrow> nat" where
  "unread iss = length (fst iss) + (if snd iss then 1 else 0)"

lemma find_char_less: "find_char s c = Some k \<Longrightarrow> k < length s"
  by (induction s arbitrary: k) (auto split: if_splits)

lemma getline_unread:
  "getline iss delim = (Some item, iss') \<Longrightarrow> unread iss' < unread iss"
proof -
  assume g: "getline iss delim = (Some item, iss')"
  obtain buf good where iss: "iss = (buf, good)" by (cases iss)
  show ?thesis
  proof (cases "find_char buf delim")
    case None
    with g iss show ?thesis
      by (auto simp: getline_def unread_def split: if_splits)
  next
    case (Some k)
    from Some have "k < length buf" by (rule find_char_less)
    with g iss Some show ?thesis
      by (auto simp: getline_def unread_def split: if_splits)
  qed
qed

subsection \<open>\<open>std::map\<close>\<close>

text \<open>
  A \<open>std::map<std::string, std::string>\<close> is an association list with one entry per
  key: \<open>m[k] = v\<close> is \<^const>\<open>AList.update\<close>, \<open>m.find(k)\<close> is \<^const>\<open>map_of\<close>. The
  list keeps the order of insertion where the C++ map keeps the order of the keys; no
  function modelled here depends on the order of a map's entries.
\<close>

section \<open>Utility functions\<close>

text \<open>
  \<open>toLower\<close> applies \<open>::tolower\<close> to every byte: in the "C" locale the letters
  \<open>A\<close> to \<open>Z\<close> move to \<open>a\<close> to \<open>z\<close> and every other byte stays.
\<close>

definition tolower :: "char \<Rightarrow> char" where
  "tolower c = (if CHR ''A'' \<le> c \<and> c \<le> CHR ''Z'' then char_of (of_char c + (32::nat)) else c)"

definition toLower :: "string \<Rightarrow> string" where
  "toLower str = map tolower str"

text \<open>
  \<open>trim\<close>: the white space of \<open>trim\<close> is the four bytes space, tab, carriage return and line feed. When a first
  byte outside them exists, \<open>end\<close> is the last one and the result is
  \<open>str.substr(start, end - start + 1)\<close>.
\<close>

definition whitespace :: string where
  "whitespace = [CHR '' '', CHR 0x09, CHR 0x0D, CHR 0x0A]"

definition trim :: "string \<Rightarrow> error + string" where
  "trim str =
     (case find_first_not_of str whitespace of
        None \<Rightarrow> Inr []
      | Some start \<Rightarrow>
          (let e = (case find_last_not_of str whitespace of Some k \<Rightarrow> k | None \<Rightarrow> npos)
           in substr str start (size_sub e start + 1)))"

text \<open>The enumerations \<open>Method\<close> and \<open>ContentType\<close>, and \<open>getContentTypeString\<close>.\<close>

datatype Method = GET | POST | PUT | DELETE_METHOD | HEAD | OPTIONS | PATCH | TRACE | CONNECT

datatype ContentType = TextPlain | TextHtml | ApplicationJson | ApplicationXml
  | ApplicationFormUrlencoded | MultipartFormData | ApplicationOctetStream
  | ImagePng | ImageJpeg | ImageGif

fun getContentTypeString :: "ContentType \<Rightarrow> string" where
  "getContentTypeString TextPlain = ''text/plain''"
| "getContentTypeString TextHtml = ''text/html''"
| "getContentTypeString ApplicationJson = ''application/json''"
| "getContentTypeString ApplicationXml = ''application/xml''"
| "getContentTypeString ApplicationFormUrlencoded = ''application/x-www-form-urlencoded''"
| "getContentTypeString MultipartFormData = ''multipart/form-data''"
| "getContentTypeString ApplicationOctetStream = ''application/octet-stream''"
| "getContentTypeString ImagePng = ''image/png''"
| "getContentTypeString ImageJpeg = ''image/jpeg''"
| "getContentTypeString ImageGif = ''image/gif''"

section \<open>URL\<close>

text \<open>
  The fields \<open>scheme, host, port, path, query, fragment\<close> of \<open>class URL\<close>, each
  prefixed with \<open>url_\<close>; \<open>URL()\<close> sets the port to 80.
\<close>

record URL =
  url_scheme :: string
  url_host :: string
  url_port :: int
  url_path :: string
  url_query :: string
  url_fragment :: string

definition URL_init :: URL where
  "URL_init = \<lparr>url_scheme = [], url_host = [], url_port = 80, url_path = [],
     url_query = [], url_fragment = []\<rparr>"

text \<open>
  \<open>URL::parse\<close> in the three stages its comments name. The first, "Parse scheme",
  returns the rest of the input (the variable \<open>temp\<close>) with the result so far.
\<close>

definition parse_scheme :: "URL \<Rightarrow> string \<Rightarrow> error + URL \<times> string" where
  "parse_scheme result temp =
     (case find_str temp ''://'' of
        Some schemePos \<Rightarrow>
          err_bind (substr temp 0 schemePos) (\<lambda>sch.
          err_bind (substr_from temp (schemePos + 3)) (\<lambda>temp'.
          Inr (if sch = ''https'' then result\<lparr>url_scheme := sch, url_port := 443\<rparr>
               else result\<lparr>url_scheme := sch\<rparr>, temp')))
      | None \<Rightarrow> Inr (result, temp))"

text \<open>
  "Parse host and port": \<open>pathPos\<close> is \<open>temp.find('/')\<close>. The port goes through
  \<open>std::stoi\<close>, whose exceptions nothing catches.
\<close>

definition parse_host_port :: "URL \<Rightarrow> string \<Rightarrow> nat option \<Rightarrow> error + URL" where
  "parse_host_port result temp pathPos =
     err_bind (case pathPos of Some p \<Rightarrow> substr temp 0 p | None \<Rightarrow> Inr temp) (\<lambda>hostPort.
       (case find_char hostPort (CHR '':'') of
          Some portPos \<Rightarrow>
            err_bind (substr hostPort 0 portPos) (\<lambda>h.
            err_bind (substr_from hostPort (portPos + 1)) (\<lambda>ps.
            err_bind (stoi ps) (\<lambda>n.
            Inr (result\<lparr>url_host := h, url_port := n\<rparr>))))
        | None \<Rightarrow> Inr (result\<lparr>url_host := hostPort\<rparr>)))"

text \<open>
  "Parse path, query, and fragment". The length \<open>fragmentPos - queryPos - 1\<close> is
  computed in \<open>size_t\<close> and wraps around when the first \<open>#\<close> stands before the
  first \<open>?\<close>.
\<close>

definition parse_path :: "URL \<Rightarrow> string \<Rightarrow> nat option \<Rightarrow> error + URL" where
  "parse_path result temp0 pathPos =
     (case pathPos of
        Some p \<Rightarrow>
          err_bind (substr_from temp0 p) (\<lambda>temp.
            let queryPos = find_char temp (CHR ''?'');
                fragmentPos = find_char temp (CHR ''#'')
            in (case queryPos of
                  Some q \<Rightarrow>
                    err_bind (substr temp 0 q) (\<lambda>pa.
                      (case fragmentPos of
                         Some f \<Rightarrow>
                           err_bind (substr temp (q + 1) (size_sub (size_sub f q) 1)) (\<lambda>qu.
                           err_bind (substr_from temp (f + 1)) (\<lambda>fr.
                           Inr (result\<lparr>url_path := pa, url_query := qu, url_fragment := fr\<rparr>)))
                       | None \<Rightarrow>
                           err_bind (substr_from temp (q + 1)) (\<lambda>qu.
                           Inr (result\<lparr>url_path := pa, url_query := qu\<rparr>))))
                | None \<Rightarrow>
                    (case fragmentPos of
                       Some f \<Rightarrow>
                         err_bind (substr temp 0 f) (\<lambda>pa.
                         err_bind (substr_from temp (f + 1)) (\<lambda>fr.
                         Inr (result\<lparr>url_path := pa, url_fragment := fr\<rparr>)))
                     | None \<Rightarrow> Inr (result\<lparr>url_path := temp\<rparr>))))
      | None \<Rightarrow> Inr (result\<lparr>url_path := ''/''\<rparr>))"

definition URL_parse :: "string \<Rightarrow> error + URL" where
  "URL_parse url =
     err_bind (parse_scheme URL_init url) (\<lambda>(result, temp).
       let pathPos = find_char temp (CHR ''/'')
       in err_bind (parse_host_port result temp pathPos) (\<lambda>result.
          parse_path result temp pathPos))"

section \<open>UrlEncoder\<close>

text \<open>
  \<open>isAlphaNumeric\<close> compares bytes; a byte above 127 is in none of the three ranges,
  whether \<open>char\<close> is signed or not.
\<close>

definition isAlphaNumeric :: "char \<Rightarrow> bool" where
  "isAlphaNumeric c =
     ((CHR ''a'' \<le> c \<and> c \<le> CHR ''z'') \<or> (CHR ''A'' \<le> c \<and> c \<le> CHR ''Z'')
      \<or> (CHR ''0'' \<le> c \<and> c \<le> CHR ''9''))"

text \<open>
  \<open>UrlEncoder::encode\<close>: the body of the loop (what one byte adds to the output
  stream) and the loop. Nothing in it can throw.
\<close>

definition encode_char :: "char \<Rightarrow> string" where
  "encode_char c =
     (if isAlphaNumeric c \<or> c = CHR ''-'' \<or> c = CHR ''_'' \<or> c = CHR ''.'' \<or> c = CHR ''~''
      then [c]
      else CHR ''%'' # setw_fill 2 (CHR ''0'') (hex_upper (of_char c)))"

definition encode :: "string \<Rightarrow> string" where
  "encode v = foldl (\<lambda>encoded c. encoded @ encode_char c) [] v"

text \<open>
  \<open>UrlEncoder::decode\<close>: the loop over the index \<open>i\<close>, with the string built so far.
  After a successful extraction the source adds 2 to \<open>i\<close> and the loop header adds 1.
\<close>

function decode_loop :: "string \<Rightarrow> nat \<Rightarrow> string \<Rightarrow> error + string" where
  "decode_loop v i decoded =
     (if i < length v then
        (if v ! i = CHR ''%'' then
           (if i + 2 < length v then
              (case substr v (i + 1) 2 of
                 Inl e \<Rightarrow> Inl e
               | Inr hx \<Rightarrow>
                   (case extract_hex_int hx of
                      Some hexValue \<Rightarrow>
                        decode_loop v (i + 2 + 1) (decoded @ [char_of hexValue])
                    | None \<Rightarrow> decode_loop v (i + 1) (decoded @ [v ! i])))
            else decode_loop v (i + 1) (decoded @ [v ! i]))
         else if v ! i = CHR ''+'' then decode_loop v (i + 1) (decoded @ [CHR '' ''])
         else decode_loop v (i + 1) (decoded @ [v ! i]))
      else Inr decoded)"
  by pat_completeness auto
termination
  by (relation "measure (\<lambda>(v, i, decoded). length v - i)") auto

declare decode_loop.simps [simp del]

definition decode :: "string \<Rightarrow> error + string" where
  "decode v = decode_loop v 0 []"

section \<open>Cookie\<close>

text \<open>
  The fields \<open>name, value, domain, path, secure, httpOnly, sameSite\<close> of
  \<open>class Cookie\<close>, each prefixed with \<open>cookie_\<close>. \<open>Cookie()\<close> leaves the strings
  empty and the flags false; \<open>Cookie(name, value)\<close> sets the two.
\<close>

record Cookie =
  cookie_name :: string
  cookie_value :: string
  cookie_domain :: string
  cookie_path :: string
  cookie_secure :: bool
  cookie_httpOnly :: bool
  cookie_sameSite :: string

definition Cookie_init :: Cookie where
  "Cookie_init = \<lparr>cookie_name = [], cookie_value = [], cookie_domain = [],
     cookie_path = [], cookie_secure = False, cookie_httpOnly = False,
     cookie_sameSite = []\<rparr>"

definition Cookie_of :: "string \<Rightarrow> string \<Rightarrow> Cookie" where
  "Cookie_of n v = Cookie_init\<lparr>cookie_name := n, cookie_value := v\<rparr>"

text \<open>
  \<open>Cookie::parse\<close>: what is done with the first item ("Parse name=value first"), the
  body of the loop over the other items, the loop, and the function.
\<close>

definition parse_name_value :: "Cookie \<Rightarrow> string \<Rightarrow> error + Cookie" where
  "parse_name_value cookie item =
     (case find_char item (CHR ''='') of
        Some equalPos \<Rightarrow>
          err_bind (substr item 0 equalPos) (\<lambda>a.
          err_bind (trim a) (\<lambda>n.
          err_bind (substr_from item (equalPos + 1)) (\<lambda>b.
          err_bind (trim b) (\<lambda>v.
          Inr (cookie\<lparr>cookie_name := n, cookie_value := v\<rparr>)))))
      | None \<Rightarrow> Inr cookie)"

definition parse_attribute :: "Cookie \<Rightarrow> string \<Rightarrow> error + Cookie" where
  "parse_attribute cookie item =
     (if find_str item ''Domain='' = Some 0 then
        err_bind (substr_from item 7) (\<lambda>d. Inr (cookie\<lparr>cookie_domain := d\<rparr>))
      else if find_str item ''Path='' = Some 0 then
        err_bind (substr_from item 5) (\<lambda>p. Inr (cookie\<lparr>cookie_path := p\<rparr>))
      else if item = ''Secure'' then Inr (cookie\<lparr>cookie_secure := True\<rparr>)
      else if item = ''HttpOnly'' then Inr (cookie\<lparr>cookie_httpOnly := True\<rparr>)
      else if find_str item ''SameSite='' = Some 0 then
        err_bind (substr_from item 9) (\<lambda>s. Inr (cookie\<lparr>cookie_sameSite := s\<rparr>))
      else Inr cookie)"

function parse_attributes :: "istringstream \<Rightarrow> Cookie \<Rightarrow> error + Cookie" where
  "parse_attributes iss cookie =
     (case getline iss (CHR '';'') of
        (None, iss') \<Rightarrow> Inr cookie
      | (Some item, iss') \<Rightarrow>
          (case trim item of
             Inl e \<Rightarrow> Inl e
           | Inr item' \<Rightarrow>
               (case parse_attribute cookie item' of
                  Inl e \<Rightarrow> Inl e
                | Inr cookie' \<Rightarrow> parse_attributes iss' cookie')))"
  by pat_completeness auto
termination
  by (relation "measure (\<lambda>(iss, cookie). unread iss)") (auto dest: getline_unread[OF sym])

declare parse_attributes.simps [simp del]

definition Cookie_parse :: "string \<Rightarrow> error + Cookie" where
  "Cookie_parse cookieString =
     (let cookie = Cookie_init; iss = (cookieString, True)
      in (case getline iss (CHR '';'') of
            (Some item, iss') \<Rightarrow>
              err_bind (parse_name_value cookie item) (\<lambda>cookie'. parse_attributes iss' cookie')
          | (None, iss') \<Rightarrow> parse_attributes iss' cookie))"

section \<open>HttpResponse\<close>

text \<open>
  The members \<open>statusCode_, statusMessage_, headers_, body_, cookies_\<close> of
  \<open>class HttpResponse\<close>, each prefixed with \<open>res_\<close>; \<open>HttpResponse()\<close> sets the
  status code to 0.
\<close>

record HttpResponse =
  res_statusCode :: int
  res_statusMessage :: string
  res_headers :: "(string \<times> string) list"
  res_body :: string
  res_cookies :: "Cookie list"

definition HttpResponse_init :: HttpResponse where
  "HttpResponse_init = \<lparr>res_statusCode = 0, res_statusMessage = [], res_headers = [],
     res_body = [], res_cookies = []\<rparr>"

text \<open>
  \<open>setHeader\<close> mutates the response: the model returns the new one. The exception
  \<open>Cookie::parse\<close> could throw would pass through.
\<close>

definition setHeader :: "HttpResponse \<Rightarrow> string \<Rightarrow> string \<Rightarrow> error + HttpResponse" where
  "setHeader r key v =
     (let lowerKey = toLower key;
          r1 = r\<lparr>res_headers := AList.update lowerKey v (res_headers r)\<rparr>
      in if lowerKey = ''set-cookie''
         then err_bind (Cookie_parse v) (\<lambda>c. Inr (r1\<lparr>res_cookies := res_cookies r1 @ [c]\<rparr>))
         else Inr r1)"

text \<open>A sequence of \<open>setHeader\<close> calls on one response, as \<open>parseHeaders\<close> makes it.\<close>

fun setHeaders :: "HttpResponse \<Rightarrow> (string \<times> string) list \<Rightarrow> error + HttpResponse" where
  "setHeaders r [] = Inr r"
| "setHeaders r ((key, v) # kvs) = err_bind (setHeader r key v) (\<lambda>r'. setHeaders r' kvs)"

definition getHeader :: "HttpResponse \<Rightarrow> string \<Rightarrow> string" where
  "getHeader r key = (case map_of (res_headers r) (toLower key) of Some v \<Rightarrow> v | None \<Rightarrow> [])"

text \<open>The loops of \<open>getCookie\<close> and \<open>hasCookie\<close> over \<open>cookies_\<close> return at the first match.\<close>

fun getCookie_loop :: "Cookie list \<Rightarrow> string \<Rightarrow> Cookie" where
  "getCookie_loop [] n = Cookie_init"
| "getCookie_loop (c # cs) n = (if cookie_name c = n then c else getCookie_loop cs n)"

definition getCookie :: "HttpResponse \<Rightarrow> string \<Rightarrow> Cookie" where
  "getCookie r n = getCookie_loop (res_cookies r) n"

fun hasCookie_loop :: "Cookie list \<Rightarrow> string \<Rightarrow> bool" where
  "hasCookie_loop [] n = False"
| "hasCookie_loop (c # cs) n = (if cookie_name c = n then True else hasCookie_loop cs n)"

definition hasCookie :: "HttpResponse \<Rightarrow> string \<Rightarrow> bool" where
  "hasCookie r n = hasCookie_loop (res_cookies r) n"

text \<open>
  \<open>getContentLength\<close>: the \<open>try\<close> around \<open>std::stoull\<close> catches every exception and
  returns 0. The result is a \<open>size_t\<close>.
\<close>

definition getContentLength :: "HttpResponse \<Rightarrow> nat" where
  "getContentLength r =
     (let lengthStr = getHeader r ''content-length''
      in if lengthStr \<noteq> [] then (case stoull lengthStr of Inr n \<Rightarrow> n | Inl e \<Rightarrow> 0)
         else length (res_body r))"

section \<open>HttpRequest\<close>

text \<open>
  The members of \<open>class HttpRequest\<close>, each prefixed with \<open>req_\<close>, its constructor
  and its \<open>setHeader\<close>.
\<close>

record HttpRequest =
  req_method :: Method
  req_url :: string
  req_headers :: "(string \<times> string) list"
  req_body :: string
  req_timeout :: int
  req_cookies :: "Cookie list"

definition HttpRequest_init :: "Method \<Rightarrow> string \<Rightarrow> HttpRequest" where
  "HttpRequest_init m url = \<lparr>req_method = m, req_url = url, req_headers = [], req_body = [],
     req_timeout = 30000, req_cookies = []\<rparr>"

definition req_setHeader :: "HttpRequest \<Rightarrow> string \<Rightarrow> string \<Rightarrow> HttpRequest" where
  "req_setHeader r key v = r\<lparr>req_headers := AList.update key v (req_headers r)\<rparr>"

section \<open>RequestBuilder\<close>

text \<open>
  The members of \<open>class RequestBuilder\<close>, each prefixed with \<open>rb_\<close>. Every method
  returns the builder it changed.
\<close>

record RequestBuilder =
  rb_method :: Method
  rb_url :: string
  rb_headers :: "(string \<times> string) list"
  rb_body :: string
  rb_timeout :: int
  rb_cookies :: "Cookie list"

definition RequestBuilder_init :: "Method \<Rightarrow> string \<Rightarrow> RequestBuilder" where
  "RequestBuilder_init m url = \<lparr>rb_method = m, rb_url = url, rb_headers = [], rb_body = [],
     rb_timeout = 30000, rb_cookies = []\<rparr>"

definition addHeader :: "RequestBuilder \<Rightarrow> string \<Rightarrow> string \<Rightarrow> RequestBuilder" where
  "addHeader b key v = b\<lparr>rb_headers := AList.update key v (rb_headers b)\<rparr>"

definition setContentType :: "RequestBuilder \<Rightarrow> ContentType \<Rightarrow> RequestBuilder" where
  "setContentType b t = addHeader b ''Content-Type'' (getContentTypeString t)"

definition setBody :: "RequestBuilder \<Rightarrow> string \<Rightarrow> RequestBuilder" where
  "setBody b body =
     (let b1 = b\<lparr>rb_body := body\<rparr>
      in if body \<noteq> [] then addHeader b1 ''Content-Length'' (to_string (length body)) else b1)"

definition setJsonBody :: "RequestBuilder \<Rightarrow> string \<Rightarrow> RequestBuilder" where
  "setJsonBody b json = setBody (setContentType b ApplicationJson) json"

definition addCookie :: "RequestBuilder \<Rightarrow> Cookie \<Rightarrow> RequestBuilder" where
  "addCookie b c = b\<lparr>rb_cookies := rb_cookies b @ [c]\<rparr>"

text \<open>
  \<open>build\<close>: the loop that writes the cookies to the stream \<open>cookieHeader\<close>, over the
  index \<open>i\<close>, and the function. The request's own cookie list stays empty.
\<close>

function cookieHeader_loop :: "Cookie list \<Rightarrow> nat \<Rightarrow> string \<Rightarrow> string" where
  "cookieHeader_loop cookies i cookieHeader =
     (if i < length cookies then
        cookieHeader_loop cookies (i + 1)
          ((if 0 < i then cookieHeader @ ''; '' else cookieHeader)
             @ cookie_name (cookies ! i) @ ''='' @ cookie_value (cookies ! i))
      else cookieHeader)"
  by pat_completeness auto
termination
  by (relation "measure (\<lambda>(cookies, i, cookieHeader). length cookies - i)") auto

declare cookieHeader_loop.simps [simp del]

definition build :: "RequestBuilder \<Rightarrow> HttpRequest" where
  "build b =
     (let request = HttpRequest_init (rb_method b) (rb_url b);
          request = fold (\<lambda>header req. req_setHeader req (fst header) (snd header))
                      (rb_headers b) request;
          request = (if rb_cookies b \<noteq> []
                     then req_setHeader request ''Cookie'' (cookieHeader_loop (rb_cookies b) 0 [])
                     else request)
      in request\<lparr>req_body := rb_body b, req_timeout := rb_timeout b\<rparr>)"

chapter \<open>The specification's notions\<close>

text \<open>
  The definitions of this chapter follow the words of the specification, not the
  code; the theorems compare the two.
\<close>

section \<open>Text before and after a separator\<close>

text \<open>
  The text before the first occurrence of a byte (all of the text when it does not
  occur) and the text after it (empty when it does not occur).
\<close>

definition before :: "char \<Rightarrow> string \<Rightarrow> string" where
  "before c s = takeWhile (\<lambda>x. x \<noteq> c) s"

definition after :: "char \<Rightarrow> string \<Rightarrow> string" where
  "after c s = drop 1 (dropWhile (\<lambda>x. x \<noteq> c) s)"

text \<open>Joining strings with a separator between them.\<close>

fun join :: "string \<Rightarrow> string list \<Rightarrow> string" where
  "join sep [] = []"
| "join sep [x] = x"
| "join sep (x # y # ys) = x @ sep @ join sep (y # ys)"

text \<open>Splitting at every occurrence of a byte: one segment more than occurrences.\<close>

fun split_on :: "char \<Rightarrow> string \<Rightarrow> string list" where
  "split_on d [] = [[]]"
| "split_on d (x # xs) =
     (if x = d then [] # split_on d xs
      else (case split_on d xs of [] \<Rightarrow> [[x]] | s # ss \<Rightarrow> (x # s) # ss))"

text \<open>Removing the surrounding white space.\<close>

definition is_ws :: "char \<Rightarrow> bool" where
  "is_ws c = (c \<in> set whitespace)"

definition strip :: "string \<Rightarrow> string" where
  "strip s = dropWhile is_ws (rev (dropWhile is_ws (rev s)))"

section \<open>Lower case\<close>

text \<open>
  A string in lower case: each of the letters \<open>A\<close> to \<open>Z\<close> replaced by the letter below it
  in the table, every other byte kept.
\<close>

definition lower_byte :: "char \<Rightarrow> char" where
  "lower_byte c =
     (case map_of (zip ''ABCDEFGHIJKLMNOPQRSTUVWXYZ'' ''abcdefghijklmnopqrstuvwxyz'') c of
        Some l \<Rightarrow> l
      | None \<Rightarrow> c)"

definition lowercase :: "string \<Rightarrow> string" where
  "lowercase s = map lower_byte s"

section \<open>The unreserved bytes\<close>

text \<open>The set \<open>[A-Za-z0-9-_.~]\<close> of the percent-encoding, byte by byte.\<close>

definition unreserved :: "char \<Rightarrow> bool" where
  "unreserved c =
     (c \<in> set (''ABCDEFGHIJKLMNOPQRSTUVWXYZ'' @ ''abcdefghijklmnopqrstuvwxyz''
                @ ''0123456789'' @ ''-_.~''))"

section \<open>The URL algorithm\<close>

text \<open>
  Step 1: if \<open>://\<close> occurs, everything before it is the scheme, and scheme and
  separator are consumed. Step 2: in the remainder, the text up to the first \<open>/\<close> is
  the authority; its text after the first \<open>:\<close>, if there is one, is the port.
\<close>

definition scheme_split :: "string \<Rightarrow> string \<times> string" where
  "scheme_split u = (case find_str u ''://'' of
      None \<Rightarrow> ([], u)
    | Some k \<Rightarrow> (take k u, drop (k + 3) u))"

definition authority :: "string \<Rightarrow> string" where
  "authority u = before (CHR ''/'') (snd (scheme_split u))"

definition port_text :: "string \<Rightarrow> string option" where
  "port_text u = (if CHR '':'' \<in> set (authority u) then Some (after (CHR '':'') (authority u))
                  else None)"

text \<open>
  Steps 3 and 4, on the remainder from the first \<open>/\<close> on (empty when there is none):
  what the algorithm says of path, query and fragment. A component it assigns nothing
  to is empty, as the fragment is where the first \<open>#\<close> stands before the first \<open>?\<close>.
\<close>

definition path_rest :: "string \<Rightarrow> string" where
  "path_rest u = dropWhile (\<lambda>x. x \<noteq> CHR ''/'') (snd (scheme_split u))"

definition spec_path_step :: "string \<Rightarrow> URL \<Rightarrow> bool" where
  "spec_path_step rest r =
     (if rest = [] then url_path r = ''/'' \<and> url_query r = [] \<and> url_fragment r = []
      else if CHR ''?'' \<in> set rest \<and> CHR ''#'' \<in> set rest then
        url_path r = before (CHR ''?'') rest \<and>
        (if CHR ''#'' \<notin> set (before (CHR ''?'') rest)
         then url_query r = before (CHR ''#'') (after (CHR ''?'') rest)
            \<and> url_fragment r = after (CHR ''#'') rest
         else url_query r = after (CHR ''?'') rest \<and> url_fragment r = [])
      else if CHR ''?'' \<in> set rest then
        url_path r = before (CHR ''?'') rest \<and> url_query r = after (CHR ''?'') rest
          \<and> url_fragment r = []
      else if CHR ''#'' \<in> set rest then
        url_path r = before (CHR ''#'') rest \<and> url_query r = []
          \<and> url_fragment r = after (CHR ''#'') rest
      else url_path r = rest \<and> url_query r = [] \<and> url_fragment r = [])"

section \<open>The cookie codec\<close>

text \<open>
  Split on \<open>;\<close>. The first segment is \<open>name=value\<close>, both trimmed; a first segment
  without \<open>=\<close> names nothing. The other segments, trimmed, are matched literally
  against the prefixes \<open>Domain=\<close>, \<open>Path=\<close>, \<open>SameSite=\<close> (the value is the suffix) and
  the flags \<open>Secure\<close>, \<open>HttpOnly\<close>; unrecognized segments are ignored.
\<close>

definition spec_name_value :: "Cookie \<Rightarrow> string \<Rightarrow> Cookie" where
  "spec_name_value c seg =
     (if CHR ''='' \<in> set seg
      then c\<lparr>cookie_name := strip (before (CHR ''='') seg),
             cookie_value := strip (after (CHR ''='') seg)\<rparr>
      else c)"

definition spec_attribute :: "Cookie \<Rightarrow> string \<Rightarrow> Cookie" where
  "spec_attribute c seg =
     (if starts_with seg ''Domain='' then c\<lparr>cookie_domain := drop (length ''Domain='') seg\<rparr>
      else if starts_with seg ''Path='' then c\<lparr>cookie_path := drop (length ''Path='') seg\<rparr>
      else if starts_with seg ''SameSite=''
        then c\<lparr>cookie_sameSite := drop (length ''SameSite='') seg\<rparr>
      else if seg = ''Secure'' then c\<lparr>cookie_secure := True\<rparr>
      else if seg = ''HttpOnly'' then c\<lparr>cookie_httpOnly := True\<rparr>
      else c)"

definition Cookie_parse_spec :: "string \<Rightarrow> Cookie" where
  "Cookie_parse_spec s =
     (let segs = split_on (CHR '';'') s
      in foldl spec_attribute (spec_name_value Cookie_init (hd segs)) (map strip (tl segs)))"

chapter \<open>Verification\<close>

section \<open>Two loops as functions on lists\<close>

text \<open>
  \<open>decode_list\<close> is the loop of \<open>UrlEncoder::decode\<close> as a recursion over the unread
  input, and \<open>url_parts\<close> is the third stage of \<open>URL::parse\<close> on the remainder from
  the first \<open>/\<close>; both are proved equal to the code's functions below and serve the
  proofs only.
\<close>

fun decode_list :: "string \<Rightarrow> string" where
  "decode_list [] = []"
| "decode_list (c # cs) =
     (if c = CHR ''%'' then
        (case cs of
           a # b # rest \<Rightarrow>
             (case extract_hex_int [a, b] of
                Some h \<Rightarrow> char_of h # decode_list rest
              | None \<Rightarrow> c # decode_list cs)
         | _ \<Rightarrow> c # decode_list cs)
      else if c = CHR ''+'' then CHR '' '' # decode_list cs
      else c # decode_list cs)"

definition url_parts :: "string \<Rightarrow> string \<times> string \<times> string" where
  "url_parts rest =
     (if rest = [] then (''/'', [], [])
      else if CHR ''?'' \<in> set rest then
        (if CHR ''#'' \<in> set rest then
           (before (CHR ''?'') rest,
            take (size_sub (size_sub (length (before (CHR ''#'') rest))
                 (length (before (CHR ''?'') rest))) 1) (after (CHR ''?'') rest),
            after (CHR ''#'') rest)
         else (before (CHR ''?'') rest, after (CHR ''?'') rest, []))
      else if CHR ''#'' \<in> set rest then (before (CHR ''#'') rest, [], after (CHR ''#'') rest)
      else (rest, [], []))"

section \<open>Percent-encoding: decode after encode\<close>

lemma substr_in_range: "pos \<le> length s \<Longrightarrow> substr s pos n = Inr (take n (drop pos s))"
  by (simp add: substr_def)

lemma drop_two: "i + 2 < length v \<Longrightarrow>
    drop (Suc i) v = v ! (i + 1) # v ! (i + 2) # drop (i + 3) v"
proof -
  assume a: "i + 2 < length v"
  then have "drop (Suc i) v = v ! (Suc i) # drop (Suc (Suc i)) v"
    by (simp add: Cons_nth_drop_Suc)
  moreover from a have "drop (Suc (Suc i)) v = v ! (Suc (Suc i)) # drop (Suc (Suc (Suc i))) v"
    by (simp add: Cons_nth_drop_Suc)
  ultimately show ?thesis by (simp add: numeral_3_eq_3)
qed

lemma decode_loop_list: "decode_loop v i acc = Inr (acc @ decode_list (drop i v))"
proof (induction v i acc rule: decode_loop.induct)
  case (1 v i decoded)
  show ?case
  proof (cases "i < length v")
    case False
    then show ?thesis by (subst decode_loop.simps) simp
  next
    case True
    then have d: "drop i v = v ! i # drop (Suc i) v"
      by (simp add: Cons_nth_drop_Suc)
    show ?thesis
    proof (cases "v ! i = CHR ''%''")
      case pct: True
      show ?thesis
      proof (cases "i + 2 < length v")
        case two: True
        then have d2: "drop (Suc i) v = v ! (i + 1) # v ! (i + 2) # drop (i + 3) v"
          by (rule drop_two)
        have sub: "substr v (i + 1) 2 = Inr [v ! (i + 1), v ! (i + 2)]"
          using two d2 by (simp add: substr_in_range)
        show ?thesis
        proof (cases "extract_hex_int [v ! (i + 1), v ! (i + 2)]")
          case None
          with 1(1)[OF True pct two sub None] True pct two sub d d2 show ?thesis
            by (subst decode_loop.simps) simp
        next
          case (Some h)
          with 1(2)[OF True pct two sub Some] True pct two sub d d2 show ?thesis
            by (subst decode_loop.simps) (simp add: numeral_3_eq_3)
        qed
      next
        case two: False
        then have "length (drop (Suc i) v) < 2" by simp
        then have short: "(case drop (Suc i) v of a # b # rest \<Rightarrow> f a b rest | _ \<Rightarrow> g) = g" for f and g :: string
          by (cases "drop (Suc i) v"; simp split: list.splits)
        from 1(3)[OF True pct two] True pct two d short show ?thesis
          by (subst decode_loop.simps) simp
      qed
    next
      case npct: False
      show ?thesis
      proof (cases "v ! i = CHR ''+''")
        case plus: True
        with 1(4)[OF True npct plus] True npct d show ?thesis
          by (subst decode_loop.simps) simp
      next
        case nplus: False
        with 1(5)[OF True npct nplus] True npct d show ?thesis
          by (subst decode_loop.simps) simp
      qed
    qed
  qed
qed

lemma decode_eq_list: "decode v = Inr (decode_list v)"
  by (simp add: decode_def decode_loop_list)


lemma foldl_append_concat: "foldl (\<lambda>e c. e @ f c) acc v = acc @ concat (map f v)"
  by (induction v arbitrary: acc) auto

lemma encode_concat: "encode v = concat (map encode_char v)"
  by (simp add: encode_def foldl_append_concat)

lemma below_16_cases:
  "d < 16 \<Longrightarrow> d \<in> {0, 1, 2, 3, 4, 5, 6, 7, 8, 9, 10, 11, 12, 13, 14, 15::nat}"
  by (simp only: insert_iff empty_iff) arith

lemma upper_digit_val: "d < 16 \<Longrightarrow> hex_digit_val (upper_digit d) = Some d"
  by (drule below_16_cases) (auto simp: upper_digit_def hex_digit_val_def)

lemma upper_digit_plain: "d < 16 \<Longrightarrow>
    \<not> isspace (upper_digit d) \<and> upper_digit d \<noteq> CHR ''-'' \<and> upper_digit d \<noteq> CHR ''+''
    \<and> upper_digit d \<noteq> CHR ''x'' \<and> upper_digit d \<noteq> CHR ''X''"
  by (drule below_16_cases) (auto simp: upper_digit_def isspace_def)

lemma extract_hex_int_upper:
  assumes "a < 16" "b < 16"
  shows "extract_hex_int [upper_digit a, upper_digit b] = Some (int (16 * a + b))"
proof -
  have sp: "dropWhile isspace [upper_digit a, upper_digit b] = [upper_digit a, upper_digit b]"
    using upper_digit_plain[OF assms(1)] by simp
  have sg: "split_sign [upper_digit a, upper_digit b] = (False, [upper_digit a, upper_digit b])"
    using upper_digit_plain[OF assms(1)] by (simp add: split_sign_def)
  have sk: "skip_0x [upper_digit a, upper_digit b] = [upper_digit a, upper_digit b]"
    using upper_digit_plain[OF assms(2)] by (simp add: skip_0x_def)
  have tw: "takeWhile is_hex_digit [upper_digit a, upper_digit b] = [upper_digit a, upper_digit b]"
    using assms by (simp add: is_hex_digit_def upper_digit_val)
  have hv: "hex_value [upper_digit a, upper_digit b] = 16 * a + b"
    using assms by (simp add: hex_value_def upper_digit_val)
  show ?thesis
    unfolding extract_hex_int_def sp sg prod.case sk tw hv Let_def
    using assms by simp
qed

lemma hex_upper_byte: "n < 256 \<Longrightarrow>
    setw_fill 2 (CHR ''0'') (hex_upper n) = [upper_digit (n div 16), upper_digit (n mod 16)]"
proof (cases "n < 16")
  case True
  then show ?thesis
    by (simp add: hex_upper.simps setw_fill_def upper_digit_def)
next
  case False
  assume "n < 256"
  then have "n div 16 < 16" by simp
  with False show ?thesis
    by (simp add: hex_upper.simps[of n] hex_upper.simps[of "n div 16"] setw_fill_def)
qed

lemma encode_char_escape:
  "\<not> (isAlphaNumeric c \<or> c = CHR ''-'' \<or> c = CHR ''_'' \<or> c = CHR ''.'' \<or> c = CHR ''~'') \<Longrightarrow>
   encode_char c = [CHR ''%'', upper_digit (of_char c div 16), upper_digit (of_char c mod 16)]"
proof -
  have "(of_char c :: nat) < 256" by simp
  then show "\<not> (isAlphaNumeric c \<or> c = CHR ''-'' \<or> c = CHR ''_'' \<or> c = CHR ''.'' \<or> c = CHR ''~'') \<Longrightarrow>
   encode_char c = [CHR ''%'', upper_digit (of_char c div 16), upper_digit (of_char c mod 16)]"
    by (simp add: encode_char_def hex_upper_byte)
qed

lemma unreserved_plain:
  "isAlphaNumeric c \<or> c = CHR ''-'' \<or> c = CHR ''_'' \<or> c = CHR ''.'' \<or> c = CHR ''~'' \<Longrightarrow>
   c \<noteq> CHR ''%'' \<and> c \<noteq> CHR ''+''"
  by (auto simp: isAlphaNumeric_def less_eq_char_def)

lemma char_of_int_of_char: "char_of (int (of_char c)) = c"
  by (simp only: char_of_nat char_of_char)

lemma decode_list_encode_char: "decode_list (encode_char c @ rest) = c # decode_list rest"
proof (cases "isAlphaNumeric c \<or> c = CHR ''-'' \<or> c = CHR ''_'' \<or> c = CHR ''.'' \<or> c = CHR ''~''")
  case True
  with unreserved_plain[OF True] show ?thesis
    by (simp add: encode_char_def)
next
  case False
  have "(of_char c :: nat) < 256" by simp
  then have lt: "(of_char c :: nat) div 16 < 16" "(of_char c :: nat) mod 16 < 16"
    by arith+
  have "16 * ((of_char c :: nat) div 16) + of_char c mod 16 = of_char c"
    by simp
  with extract_hex_int_upper[OF lt]
  have "extract_hex_int [upper_digit (of_char c div 16), upper_digit (of_char c mod 16)]
      = Some (int (of_char c))"
    by simp
  then show ?thesis
    by (simp add: encode_char_escape[OF False] char_of_int_of_char)
qed

lemma decode_list_encode: "decode_list (concat (map encode_char s)) = s"
  by (induction s) (simp_all add: decode_list_encode_char)



lemma lower_codes: "map char_of [97..<123::nat] = ''abcdefghijklmnopqrstuvwxyz''"
  by code_simp

lemma upper_codes: "map char_of [65..<91::nat] = ''ABCDEFGHIJKLMNOPQRSTUVWXYZ''"
  by code_simp

lemma digit_codes: "map char_of [48..<58::nat] = ''0123456789''"
  by code_simp

lemma in_code_range:
  "a \<le> (of_char c :: nat) \<Longrightarrow> (of_char c :: nat) < b \<Longrightarrow> c \<in> set (map char_of [a..<b])"
proof -
  assume "a \<le> (of_char c :: nat)" "(of_char c :: nat) < b"
  then have "(of_char c :: nat) \<in> set [a..<b]" by simp
  then have "char_of (of_char c :: nat) \<in> char_of ` set [a..<b]" by (rule imageI)
  then show ?thesis by simp
qed

lemma isAlphaNumeric_unreserved: "isAlphaNumeric c \<Longrightarrow> unreserved c"
proof -
  assume "isAlphaNumeric c"
  then consider "97 \<le> (of_char c :: nat) \<and> (of_char c :: nat) < 123"
    | "65 \<le> (of_char c :: nat) \<and> (of_char c :: nat) < 91"
    | "48 \<le> (of_char c :: nat) \<and> (of_char c :: nat) < 58"
    by (auto simp: isAlphaNumeric_def less_eq_char_def)
  then show ?thesis
  proof cases
    case 1
    then have "c \<in> set (map char_of [97..<123::nat])" by (simp only: in_code_range)
    then have "c \<in> set ''abcdefghijklmnopqrstuvwxyz''" by (simp only: lower_codes)
    then show ?thesis by (simp only: unreserved_def set_append Un_iff simp_thms)
  next
    case 2
    then have "c \<in> set (map char_of [65..<91::nat])" by (simp only: in_code_range)
    then have "c \<in> set ''ABCDEFGHIJKLMNOPQRSTUVWXYZ''" by (simp only: upper_codes)
    then show ?thesis by (simp only: unreserved_def set_append Un_iff simp_thms)
  next
    case 3
    then have "c \<in> set (map char_of [48..<58::nat])" by (simp only: in_code_range)
    then have "c \<in> set ''0123456789''" by (simp only: digit_codes)
    then show ?thesis by (simp only: unreserved_def set_append Un_iff simp_thms)
  qed
qed

lemma lower_range: "\<forall>c \<in> set ''abcdefghijklmnopqrstuvwxyz''. CHR ''a'' \<le> c \<and> c \<le> CHR ''z''"
  by simp

lemma upper_range: "\<forall>c \<in> set ''ABCDEFGHIJKLMNOPQRSTUVWXYZ''. CHR ''A'' \<le> c \<and> c \<le> CHR ''Z''"
  by simp

lemma digit_range: "\<forall>c \<in> set ''0123456789''. CHR ''0'' \<le> c \<and> c \<le> CHR ''9''"
  by simp

lemma unreserved_iff:
  "isAlphaNumeric c \<or> c = CHR ''-'' \<or> c = CHR ''_'' \<or> c = CHR ''.'' \<or> c = CHR ''~''
     \<longleftrightarrow> unreserved c"
proof
  assume "isAlphaNumeric c \<or> c = CHR ''-'' \<or> c = CHR ''_'' \<or> c = CHR ''.'' \<or> c = CHR ''~''"
  then show "unreserved c"
  proof
    assume "isAlphaNumeric c"
    then show ?thesis by (rule isAlphaNumeric_unreserved)
  next
    assume "c = CHR ''-'' \<or> c = CHR ''_'' \<or> c = CHR ''.'' \<or> c = CHR ''~''"
    then have "c \<in> set ''-_.~''" by auto
    then show ?thesis by (simp only: unreserved_def set_append Un_iff simp_thms)
  qed
next
  assume "unreserved c"
  then consider "c \<in> set ''ABCDEFGHIJKLMNOPQRSTUVWXYZ''" | "c \<in> set ''abcdefghijklmnopqrstuvwxyz''"
    | "c \<in> set ''0123456789''" | "c \<in> set ''-_.~''"
    unfolding unreserved_def set_append Un_iff by blast
  then show "isAlphaNumeric c \<or> c = CHR ''-'' \<or> c = CHR ''_'' \<or> c = CHR ''.'' \<or> c = CHR ''~''"
  proof cases
    case 1
    with upper_range have "CHR ''A'' \<le> c \<and> c \<le> CHR ''Z''" by (rule bspec)
    then show ?thesis by (simp add: isAlphaNumeric_def)
  next
    case 2
    with lower_range have "CHR ''a'' \<le> c \<and> c \<le> CHR ''z''" by (rule bspec)
    then show ?thesis by (simp add: isAlphaNumeric_def)
  next
    case 3
    with digit_range have "CHR ''0'' \<le> c \<and> c \<le> CHR ''9''" by (rule bspec)
    then show ?thesis by (simp add: isAlphaNumeric_def)
  next
    case 4
    then show ?thesis by simp
  qed
qed

lemma encode_char_spec:
  "encode_char c = (if unreserved c then [c]
     else [CHR ''%'', ''0123456789ABCDEF'' ! (of_char c div 16),
           ''0123456789ABCDEF'' ! (of_char c mod 16)])"
proof (cases "isAlphaNumeric c \<or> c = CHR ''-'' \<or> c = CHR ''_'' \<or> c = CHR ''.'' \<or> c = CHR ''~''")
  case True
  then have "unreserved c" by (simp only: unreserved_iff)
  with True show ?thesis by (simp add: encode_char_def)
next
  case False
  then have "\<not> unreserved c" by (simp only: unreserved_iff simp_thms)
  with encode_char_escape[OF False] show ?thesis
    by (simp add: upper_digit_def)
qed

text \<open>
  C1. For every byte sequence \<open>s\<close>, decoding the encoding of \<open>s\<close> succeeds and
  gives \<open>s\<close> back. The encoding is, byte by byte: a byte of \<open>[A-Za-z0-9-_.~]\<close> as it
  is, every other byte as \<open>%\<close> and its two hexadecimal digits in upper case.
\<close>

theorem decode_encode_roundtrip:
  "decode (encode s) = Inr s \<and>
   encode s = concat (map (\<lambda>c. if unreserved c then [c]
       else [CHR ''%'', ''0123456789ABCDEF'' ! (of_char c div 16),
             ''0123456789ABCDEF'' ! (of_char c mod 16)]) s)"
proof
  show "decode (encode s) = Inr s"
    by (simp add: decode_eq_list encode_concat decode_list_encode)
  have "encode_char = (\<lambda>c. if unreserved c then [c]
       else [CHR ''%'', ''0123456789ABCDEF'' ! (of_char c div 16),
             ''0123456789ABCDEF'' ! (of_char c mod 16)])"
    by (rule ext) (rule encode_char_spec)
  then show "encode s = concat (map (\<lambda>c. if unreserved c then [c]
       else [CHR ''%'', ''0123456789ABCDEF'' ! (of_char c div 16),
             ''0123456789ABCDEF'' ! (of_char c mod 16)]) s)"
    by (simp add: encode_concat)
qed

theorem decode_encode_roundtrip_witness:
  "decode (encode ''Hello World! @#$%^&*()'') = Inr ''Hello World! @#$%^&*()''
   \<and> encode ''a b+c%~'' = ''a%20b%2Bc%25~''"
  using decode_encode_roundtrip[of "''Hello World! @#$%^&*()''", THEN conjunct1]
    decode_encode_roundtrip[of "''a b+c%~''", THEN conjunct2]
  by (simp add: unreserved_def)

text \<open>
  C3 says that a \<open>%\<close> followed by two bytes that are not both hexadecimal digits is
  copied through with them, and that every \<open>+\<close> becomes a space. The code does
  otherwise wherever the stream extraction reads a number from the two bytes without
  using both as digits: \<open>%4G\<close> decodes to the byte 4 and the \<open>G\<close> is lost, and so do
  \<open>%+4\<close> and \<open>% 4\<close>; \<open>%2+\<close> decodes to the byte 2 and \<open>%-1\<close> to the byte 255.
\<close>

theorem decode_partial_hex_escape:
  "decode ''%4G'' = Inr [CHR 0x04] \<and> decode ''%+4'' = Inr [CHR 0x04]
   \<and> decode ''%2+'' = Inr [CHR 0x02] \<and> decode ''% 4'' = Inr [CHR 0x04]
   \<and> decode ''%-1'' = Inr [CHR 0xFF]"
  by (simp add: decode_eq_list extract_hex_int_def isspace_def split_sign_def skip_0x_def
      is_hex_digit_def hex_digit_val_def hex_value_def char_of_def)

section \<open>Decimal numbers\<close>

lemma below_10_cases: "d < 10 \<Longrightarrow> d \<in> {0, 1, 2, 3, 4, 5, 6, 7, 8, 9::nat}"
  by (simp only: insert_iff empty_iff) arith

lemma dec_digit_code: "d < 10 \<Longrightarrow> (of_char (dec_digit d) :: nat) = 48 + d"
  by (drule below_10_cases) (auto simp: dec_digit_def)

lemma is_digit_code: "is_digit c \<longleftrightarrow> 48 \<le> (of_char c :: nat) \<and> (of_char c :: nat) \<le> 57"
  by (simp add: is_digit_def less_eq_char_def)

lemma is_digit_plain:
  "is_digit c \<Longrightarrow> \<not> isspace c \<and> c \<noteq> CHR ''-'' \<and> c \<noteq> CHR ''+''"
  by (auto simp: is_digit_code isspace_def)

lemma dec_value_snoc: "dec_value (xs @ [c]) = 10 * dec_value xs + (of_char c - 48)"
  by (simp add: dec_value_def)

lemma to_string_digits:
  "to_string n \<noteq> [] \<and> (\<forall>c \<in> set (to_string n). is_digit c) \<and> dec_value (to_string n) = n"
proof (induction n rule: to_string.induct)
  case (1 n)
  show ?case
  proof (cases "n < 10")
    case True
    then show ?thesis
      by (subst (1 2 3) to_string.simps) (simp add: is_digit_code dec_digit_code dec_value_def)
  next
    case False
    have "n mod 10 < 10" by simp
    with 1[OF False] False show ?thesis
      by (subst (1 2 3) to_string.simps)
        (simp add: is_digit_code dec_digit_code dec_value_snoc)
  qed
qed

lemma digits_parse:
  assumes "ds \<noteq> []" "\<forall>c \<in> set ds. is_digit c"
  shows "dropWhile isspace ds = ds" "split_sign ds = (False, ds)" "takeWhile is_digit ds = ds"
proof -
  from assms obtain c cs where ds: "ds = c # cs" "is_digit c" by (cases ds) auto
  with is_digit_plain[of c] show "dropWhile isspace ds = ds" by simp
  from ds is_digit_plain[of c] show "split_sign ds = (False, ds)" by (simp add: split_sign_def)
  from assms(2) show "takeWhile is_digit ds = ds" by simp
qed

lemma stoull_to_string: "n < 2 ^ 64 \<Longrightarrow> stoull (to_string n) = Inr n"
proof -
  assume n: "n < 2 ^ 64"
  from to_string_digits[of n] have d: "to_string n \<noteq> []" "\<forall>c \<in> set (to_string n). is_digit c"
    "dec_value (to_string n) = n" by simp_all
  note p = digits_parse[OF d(1,2)]
  show ?thesis
    unfolding stoull_def p prod.case Let_def d(3) using d(1) n by simp
qed

lemma stoi_to_string: "n \<le> 2147483647 \<Longrightarrow> stoi (to_string n) = Inr (int n)"
proof -
  assume n: "n \<le> 2147483647"
  from to_string_digits[of n] have d: "to_string n \<noteq> []" "\<forall>c \<in> set (to_string n). is_digit c"
    "dec_value (to_string n) = n" by simp_all
  note p = digits_parse[OF d(1,2)]
  show ?thesis
    unfolding stoi_def p prod.case Let_def d(3) using d(1) n by simp
qed

section \<open>URL parsing\<close>

lemma err_bind_Inr [simp]: "err_bind (Inr x) f = f x"
  by (simp add: err_bind_def)

lemma err_bind_Inl [simp]: "err_bind (Inl e) f = Inl e"
  by (simp add: err_bind_def)

lemma substr_from_in_range: "pos \<le> length s \<Longrightarrow> substr_from s pos = Inr (drop pos s)"
  by (simp add: substr_from_def)

lemma before_absent: "c \<notin> set s \<Longrightarrow> before c s = s"
  by (auto simp add: before_def)

lemma find_char_None: "find_char s c = None \<longleftrightarrow> c \<notin> set s"
  by (induction s) auto

lemma find_char_Some:
  "find_char s c = Some k \<Longrightarrow>
     k < length s \<and> take k s = before c s \<and> drop (Suc k) s = after c s"
proof (induction s arbitrary: k)
  case Nil
  then show ?case by simp
next
  case (Cons x xs)
  show ?case
  proof (cases "x = c")
    case True
    with Cons.prems show ?thesis by (simp add: before_def after_def)
  next
    case False
    with Cons.prems obtain j where j: "find_char xs c = Some j" "k = Suc j"
      by auto
    from Cons.IH[OF j(1)] j(2) False show ?thesis
      by (simp add: before_def after_def)
  qed
qed

lemma find_char_cases:
  obtains (absent) "find_char s c = None" "c \<notin> set s"
  | (found) k where "find_char s c = Some k" "k < length s" "take k s = before c s"
      "drop (Suc k) s = after c s" "c \<in> set s"
proof (cases "find_char s c")
  case None
  then show ?thesis using absent by (simp add: find_char_None)
next
  case (Some k)
  moreover from Some have "c \<in> set s"
    using find_char_None[of s c] by auto
  ultimately show ?thesis using found find_char_Some[OF Some] by blast
qed

lemma find_str_Some: "find_str s p = Some k \<Longrightarrow> k + length p \<le> length s"
proof (induction s arbitrary: k)
  case Nil
  then show ?case by (simp split: if_splits)
next
  case (Cons x xs)
  show ?case
  proof (cases "starts_with (x # xs) p")
    case True
    then have "length (take (length p) (x # xs)) = length p"
      by (simp add: starts_with_def)
    then have "length p \<le> length (x # xs)"
      by simp
    with True Cons.prems show ?thesis by simp
  next
    case False
    with Cons.prems obtain j where j: "find_str xs p = Some j" "k = Suc j"
      by auto
    from Cons.IH[OF j(1)] j(2) show ?thesis by simp
  qed
qed

lemma parse_scheme_eq:
  "parse_scheme URL_init u =
     Inr (URL_init\<lparr>url_scheme := fst (scheme_split u),
            url_port := (if fst (scheme_split u) = ''https'' then 443 else 80)\<rparr>,
          snd (scheme_split u))"
proof (cases "find_str u ''://''")
  case None
  then show ?thesis by (simp add: parse_scheme_def scheme_split_def URL_init_def)
next
  case (Some k)
  from find_str_Some[OF Some] have "k + 3 \<le> length u" by simp
  with Some show ?thesis
    by (simp add: parse_scheme_def scheme_split_def substr_in_range substr_from_in_range
        URL_init_def)
qed

lemma parse_host_port_eq:
  "parse_host_port r temp (find_char temp (CHR ''/'')) =
     (if CHR '':'' \<in> set (before (CHR ''/'') temp)
      then (case stoi (after (CHR '':'') (before (CHR ''/'') temp)) of
              Inl e \<Rightarrow> Inl e
            | Inr n \<Rightarrow> Inr (r\<lparr>url_host := before (CHR '':'') (before (CHR ''/'') temp),
                                url_port := n\<rparr>))
      else Inr (r\<lparr>url_host := before (CHR ''/'') temp\<rparr>))"
proof -
  have hp: "(case find_char temp (CHR ''/'') of Some p \<Rightarrow> substr temp 0 p | None \<Rightarrow> Inr temp)
      = Inr (before (CHR ''/'') temp)"
  proof (cases rule: find_char_cases[of temp "CHR ''/''"])
    case absent
    then show ?thesis by (simp add: before_absent)
  next
    case (found k)
    then show ?thesis by (simp add: substr_in_range)
  qed
  show ?thesis
  proof (cases rule: find_char_cases[of "before (CHR ''/'') temp" "CHR '':''"])
    case absent
    then show ?thesis by (simp add: parse_host_port_def hp)
  next
    case (found k)
    then show ?thesis
      by (simp add: parse_host_port_def hp substr_in_range substr_from_in_range err_bind_def
          split: sum.splits)
  qed
qed

lemma find_char_pos: "find_char s c = Some k \<Longrightarrow> k = length (before c s)"
proof -
  assume a: "find_char s c = Some k"
  from find_char_Some[OF a] have "k < length s" "take k s = before c s" by simp_all
  then have "length (before c s) = min (length s) k" by (metis length_take)
  with \<open>k < length s\<close> show ?thesis by simp
qed

lemma drop_before: "drop (length (before c s)) s = dropWhile (\<lambda>x. x \<noteq> c) s"
  by (simp add: before_def dropWhile_eq_drop)

lemma parse_path_eq:
  assumes pp: "pp = find_char temp (CHR ''/'')"
  defines "rest \<equiv> dropWhile (\<lambda>x. x \<noteq> CHR ''/'') temp"
  shows "parse_path r temp pp = Inr
     (if rest = [] then r\<lparr>url_path := ''/''\<rparr>
      else if CHR ''?'' \<in> set rest then
        (if CHR ''#'' \<in> set rest then
           r\<lparr>url_path := before (CHR ''?'') rest,
             url_query := take (size_sub (size_sub (length (before (CHR ''#'') rest))
                 (length (before (CHR ''?'') rest))) 1) (after (CHR ''?'') rest),
             url_fragment := after (CHR ''#'') rest\<rparr>
         else r\<lparr>url_path := before (CHR ''?'') rest, url_query := after (CHR ''?'') rest\<rparr>)
      else if CHR ''#'' \<in> set rest then
        r\<lparr>url_path := before (CHR ''#'') rest, url_fragment := after (CHR ''#'') rest\<rparr>
      else r\<lparr>url_path := rest\<rparr>)"
proof (cases rule: find_char_cases[of temp "CHR ''/''"])
  case absent
  then have "rest = []" by (auto simp add: rest_def)
  with absent pp show ?thesis
    by (simp add: parse_path_def)
next
  case (found p)
  from find_char_pos[OF found(1)] have "drop p temp = rest"
    by (simp add: rest_def drop_before)
  with found have t: "substr_from temp p = Inr rest"
    by (simp add: substr_from_in_range)
  from found have ne: "rest \<noteq> []"
    by (simp add: rest_def)
  show ?thesis
  proof (cases rule: find_char_cases[of rest "CHR ''?''"])
    case qabsent: absent
    show ?thesis
    proof (cases rule: find_char_cases[of rest "CHR ''#''"])
      case absent
      with qabsent pp found(1) t ne show ?thesis
        by (simp add: parse_path_def)
    next
      case (found f)
      with qabsent pp \<open>find_char temp (CHR ''/'') = Some p\<close> t ne show ?thesis
        by (simp add: parse_path_def substr_in_range substr_from_in_range)
    qed
  next
    case qfound: (found q)
    show ?thesis
    proof (cases rule: find_char_cases[of rest "CHR ''#''"])
      case absent
      with qfound pp found(1) t ne show ?thesis
        by (simp add: parse_path_def substr_in_range substr_from_in_range)
    next
      case (found f)
      from find_char_pos[OF found(1)] find_char_pos[OF qfound(1)]
      have "f = length (before (CHR ''#'') rest)" "q = length (before (CHR ''?'') rest)"
        by simp_all
      with found qfound pp \<open>find_char temp (CHR ''/'') = Some p\<close> t ne show ?thesis
        by (simp add: parse_path_def substr_in_range substr_from_in_range)
    qed
  qed
qed

lemma URL_parse_full:
  "URL_parse u =
     (case (if CHR '':'' \<in> set (authority u) then stoi (after (CHR '':'') (authority u))
            else Inr (if fst (scheme_split u) = ''https'' then 443 else 80)) of
        Inl e \<Rightarrow> Inl e
      | Inr n \<Rightarrow>
          Inr \<lparr>url_scheme = fst (scheme_split u),
               url_host = before (CHR '':'') (authority u),
               url_port = n,
               url_path = fst (url_parts (path_rest u)),
               url_query = fst (snd (url_parts (path_rest u))),
               url_fragment = snd (snd (url_parts (path_rest u)))\<rparr>)"
proof -
  define sch where "sch = fst (scheme_split u)"
  define temp where "temp = snd (scheme_split u)"
  define r0 where "r0 = URL_init\<lparr>url_scheme := sch,
      url_port := (if sch = ''https'' then 443 else 80)\<rparr>"
  have unf: "URL_parse u =
      err_bind (parse_host_port r0 temp (find_char temp (CHR ''/''))) (\<lambda>result.
        parse_path result temp (find_char temp (CHR ''/'')))"
    by (simp add: URL_parse_def parse_scheme_eq sch_def temp_def r0_def Let_def)
  have auth: "authority u = before (CHR ''/'') temp"
    by (simp add: authority_def temp_def)
  have rest: "path_rest u = dropWhile (\<lambda>x. x \<noteq> CHR ''/'') temp"
    by (simp add: path_rest_def temp_def)
  have pp: "parse_path r temp (find_char temp (CHR ''/'')) =
      Inr (r\<lparr>url_path := fst (url_parts (path_rest u)),
              url_query := (if CHR ''?'' \<in> set (path_rest u)
                            then fst (snd (url_parts (path_rest u))) else url_query r),
              url_fragment := (if CHR ''#'' \<in> set (path_rest u)
                            then snd (snd (url_parts (path_rest u))) else url_fragment r)\<rparr>)" for r
    unfolding parse_path_eq[OF refl] rest[symmetric] url_parts_def by auto
  show ?thesis
  proof (cases "CHR '':'' \<in> set (authority u)")
    case False
    then have hp: "parse_host_port r0 temp (find_char temp (CHR ''/''))
        = Inr (r0\<lparr>url_host := authority u\<rparr>)"
      by (simp add: parse_host_port_eq auth)
    from False have h: "before (CHR '':'') (authority u) = authority u"
      by (rule before_absent)
    show ?thesis
      unfolding unf hp err_bind_Inr pp
      using False by (simp add: h r0_def URL_init_def sch_def url_parts_def)
  next
    case True
    show ?thesis
    proof (cases "stoi (after (CHR '':'') (authority u))")
      case (Inl e)
      with True have "parse_host_port r0 temp (find_char temp (CHR ''/'')) = Inl e"
        by (simp add: parse_host_port_eq auth)
      with unf True Inl show ?thesis
        by simp
    next
      case (Inr n)
      with True have hp: "parse_host_port r0 temp (find_char temp (CHR ''/''))
          = Inr (r0\<lparr>url_host := before (CHR '':'') (authority u), url_port := n\<rparr>)"
        by (simp add: parse_host_port_eq auth)
      show ?thesis
        unfolding unf hp err_bind_Inr pp
        using True Inr by (simp add: r0_def URL_init_def sch_def url_parts_def)
    qed
  qed
qed

lemma split_at_first: "c \<in> set s \<Longrightarrow> s = before c s @ c # after c s"
proof -
  assume "c \<in> set s"
  then have "dropWhile (\<lambda>x. x \<noteq> c) s \<noteq> []" by auto
  then obtain y ys where d: "dropWhile (\<lambda>x. x \<noteq> c) s = y # ys"
    by (cases "dropWhile (\<lambda>x. x \<noteq> c) s") auto
  then have "y = c"
    by (simp add: dropWhile_eq_Cons_conv)
  with d have "dropWhile (\<lambda>x. x \<noteq> c) s = c # after c s"
    by (simp add: after_def)
  then have "takeWhile (\<lambda>x. x \<noteq> c) s @ dropWhile (\<lambda>x. x \<noteq> c) s
      = before c s @ c # after c s"
    by (simp add: before_def)
  then show ?thesis
    by (simp only: takeWhile_dropWhile_id)
qed

lemma query_between:
  assumes q: "CHR ''?'' \<in> set rest" and h: "CHR ''#'' \<in> set rest"
    and later: "CHR ''#'' \<notin> set (before (CHR ''?'') rest)"
  shows "take (size_sub (size_sub (length (before (CHR ''#'') rest))
           (length (before (CHR ''?'') rest))) 1) (after (CHR ''?'') rest)
         = before (CHR ''#'') (after (CHR ''?'') rest)"
proof -
  define B where "B = before (CHR ''?'') rest"
  define A where "A = after (CHR ''?'') rest"
  have rest: "rest = B @ CHR ''?'' # A"
    unfolding B_def A_def using q by (rule split_at_first)
  have "takeWhile (\<lambda>x. x \<noteq> CHR ''#'') (B @ CHR ''?'' # A)
      = B @ takeWhile (\<lambda>x. x \<noteq> CHR ''#'') (CHR ''?'' # A)"
    using later by (intro takeWhile_append2) (auto simp: B_def)
  then have bh: "before (CHR ''#'') rest = B @ CHR ''?'' # before (CHR ''#'') A"
    by (simp add: before_def rest)
  have "take (length (before (CHR ''#'') A)) A = before (CHR ''#'') A"
    by (simp add: before_def takeWhile_eq_take[symmetric])
  then show ?thesis
    unfolding bh B_def[symmetric] A_def[symmetric] by (simp add: size_sub_def)
qed

lemma query_to_end:
  assumes q: "CHR ''?'' \<in> set rest"
    and earlier: "CHR ''#'' \<in> set (before (CHR ''?'') rest)"
    and len: "length rest < 2 ^ 64"
  shows "take (size_sub (size_sub (length (before (CHR ''#'') rest))
           (length (before (CHR ''?'') rest))) 1) (after (CHR ''?'') rest)
         = after (CHR ''?'') rest"
proof -
  define B where "B = before (CHR ''?'') rest"
  define A where "A = after (CHR ''?'') rest"
  have rest: "rest = B @ CHR ''?'' # A"
    unfolding B_def A_def using q by (rule split_at_first)
  have "takeWhile (\<lambda>x. x \<noteq> CHR ''#'') (B @ CHR ''?'' # A) = takeWhile (\<lambda>x. x \<noteq> CHR ''#'') B"
    using earlier by (intro takeWhile_append1[of "CHR ''#''"]) (auto simp: B_def)
  then have bh: "before (CHR ''#'') rest = before (CHR ''#'') B"
    by (simp add: before_def rest)
  have "length (before (CHR ''#'') B) < length B"
  proof -
    have "length (takeWhile (\<lambda>x. x \<noteq> CHR ''#'') B) \<le> length B"
      by (rule length_takeWhile_le)
    moreover have "length (takeWhile (\<lambda>x. x \<noteq> CHR ''#'') B) \<noteq> length B"
    proof
      assume "length (takeWhile (\<lambda>x. x \<noteq> CHR ''#'') B) = length B"
      then have "takeWhile (\<lambda>x. x \<noteq> CHR ''#'') B = B"
        by (metis takeWhile_dropWhile_id append_eq_conv_conj drop_all order_refl append_Nil2)
      with earlier show False by (auto simp: B_def)
    qed
    ultimately show ?thesis by (simp add: before_def)
  qed
  moreover have "length rest = length B + 1 + length A"
    by (subst rest) simp
  ultimately have "length A \<le> size_sub (size_sub (length (before (CHR ''#'') B)) (length B)) 1"
    using len unfolding size_sub_def by (simp split: if_splits) arith
  then show ?thesis
    unfolding bh B_def[symmetric] A_def[symmetric] by simp
qed

lemma url_parts_fragment_first:
  assumes q: "CHR ''?'' \<in> set rest"
    and earlier: "CHR ''#'' \<in> set (before (CHR ''?'') rest)"
    and len: "length rest < 2 ^ 64"
  shows "url_parts rest = (before (CHR ''?'') rest, after (CHR ''?'') rest, after (CHR ''#'') rest)"
proof -
  from q have ne: "rest \<noteq> []" by auto
  from earlier have "CHR ''#'' \<in> set (takeWhile (\<lambda>x. x \<noteq> CHR ''?'') rest)"
    by (simp only: before_def)
  then have h: "CHR ''#'' \<in> set rest" by (rule set_takeWhileD[THEN conjunct1])
  from ne q h have "url_parts rest =
      (before (CHR ''?'') rest,
       take (size_sub (size_sub (length (before (CHR ''#'') rest))
             (length (before (CHR ''?'') rest))) 1) (after (CHR ''?'') rest),
       after (CHR ''#'') rest)"
    by (simp add: url_parts_def)
  then show ?thesis
    unfolding query_to_end[OF q earlier len] .
qed

lemma url_parts_spec:
  assumes order: "\<not> (CHR ''?'' \<in> set rest \<and> CHR ''#'' \<in> set (before (CHR ''?'') rest))"
    and r: "url_path r = fst (url_parts rest)" "url_query r = fst (snd (url_parts rest))"
      "url_fragment r = snd (snd (url_parts rest))"
  shows "spec_path_step rest r"
proof (cases "rest = []")
  case True
  then have "url_parts rest = (''/'', [], [])" by (simp add: url_parts_def)
  with r True show ?thesis by (simp add: spec_path_step_def)
next
  case ne: False
  show ?thesis
  proof (cases "CHR ''?'' \<in> set rest")
    case q: True
    with order have later: "CHR ''#'' \<notin> set (before (CHR ''?'') rest)" by simp
    show ?thesis
    proof (cases "CHR ''#'' \<in> set rest")
      case h: True
      from ne q h have parts: "url_parts rest =
          (before (CHR ''?'') rest,
           take (size_sub (size_sub (length (before (CHR ''#'') rest))
                 (length (before (CHR ''?'') rest))) 1) (after (CHR ''?'') rest),
           after (CHR ''#'') rest)"
        by (simp add: url_parts_def)
      have "url_query r = before (CHR ''#'') (after (CHR ''?'') rest)"
        unfolding r parts using query_between[OF q h later] by simp
      moreover have "url_path r = before (CHR ''?'') rest"
        "url_fragment r = after (CHR ''#'') rest"
        unfolding r parts by simp_all
      ultimately show ?thesis
        using ne q h later by (simp add: spec_path_step_def)
    next
      case h: False
      from ne q h have "url_parts rest = (before (CHR ''?'') rest, after (CHR ''?'') rest, [])"
        by (simp add: url_parts_def)
      with r ne q h show ?thesis by (simp add: spec_path_step_def)
    qed
  next
    case q: False
    show ?thesis
    proof (cases "CHR ''#'' \<in> set rest")
      case h: True
      from ne q h have "url_parts rest = (before (CHR ''#'') rest, [], after (CHR ''#'') rest)"
        by (simp add: url_parts_def)
      with r ne q h show ?thesis by (simp add: spec_path_step_def)
    next
      case h: False
      from ne q h have "url_parts rest = (rest, [], [])"
        by (simp add: url_parts_def)
      with r ne q h show ?thesis by (simp add: spec_path_step_def)
    qed
  qed
qed


text \<open>
  What \<open>URL::parse\<close> does on every URL. The two examples of the specification
  evaluate as stated. For every URL that parses: the scheme is the text before the
  first \<open>://\<close> (empty without one), the host is the authority up to its first colon,
  the port is 443 exactly when the scheme is \<open>https\<close> and 80 otherwise unless the
  authority holds a colon, in which case it is the integer \<open>std::stoi\<close> reads after
  that colon; without a colon in the authority the parse always succeeds. Path, query
  and fragment follow the third and fourth step of the algorithm (\<open>spec_path_step\<close>)
  unless the first \<open>#\<close> stands before the first \<open>?\<close>; there, for a URL shorter than
  \<open>2^64\<close> bytes, the path is the text before the \<open>?\<close>, the query the text after it,
  and the fragment all of the text after the \<open>#\<close>.
\<close>

lemma URL_parse_steps:
  "URL_parse ''https://api.example.com:8080/v1/users?page=1&limit=10#section''
     = Inr \<lparr>url_scheme = ''https'', url_host = ''api.example.com'', url_port = 8080,
            url_path = ''/v1/users'', url_query = ''page=1&limit=10'',
            url_fragment = ''section''\<rparr>
   \<and> URL_parse ''http://example.com''
     = Inr \<lparr>url_scheme = ''http'', url_host = ''example.com'', url_port = 80,
            url_path = ''/'', url_query = [], url_fragment = []\<rparr>
   \<and> (port_text u = None \<longrightarrow> (\<exists>r. URL_parse u = Inr r))
   \<and> (\<forall>r. URL_parse u = Inr r \<longrightarrow>
         url_scheme r = fst (scheme_split u)
       \<and> url_host r = before (CHR '':'') (authority u)
       \<and> (port_text u = None \<longrightarrow>
            url_port r = (if url_scheme r = ''https'' then 443 else 80))
       \<and> (\<forall>ps. port_text u = Some ps \<longrightarrow> stoi ps = Inr (url_port r))
       \<and> (\<not> (CHR ''?'' \<in> set (path_rest u)
               \<and> CHR ''#'' \<in> set (before (CHR ''?'') (path_rest u)))
            \<longrightarrow> spec_path_step (path_rest u) r)
       \<and> (CHR ''?'' \<in> set (path_rest u)
             \<and> CHR ''#'' \<in> set (before (CHR ''?'') (path_rest u)) \<and> length u < 2 ^ 64
            \<longrightarrow> url_path r = before (CHR ''?'') (path_rest u)
              \<and> url_query r = after (CHR ''?'') (path_rest u)
              \<and> url_fragment r = after (CHR ''#'') (path_rest u)))
   \<and> (\<forall>n. n \<le> 2147483647 \<longrightarrow> stoi (to_string n) = Inr (int n))"
proof (intro conjI allI impI)
  show "URL_parse ''https://api.example.com:8080/v1/users?page=1&limit=10#section''
     = Inr \<lparr>url_scheme = ''https'', url_host = ''api.example.com'', url_port = 8080,
            url_path = ''/v1/users'', url_query = ''page=1&limit=10'',
            url_fragment = ''section''\<rparr>"
    by code_simp
  show "URL_parse ''http://example.com''
     = Inr \<lparr>url_scheme = ''http'', url_host = ''example.com'', url_port = 80,
            url_path = ''/'', url_query = [], url_fragment = []\<rparr>"
    by code_simp
  show "\<exists>r. URL_parse u = Inr r" if "port_text u = None"
    using that by (simp add: URL_parse_full port_text_def split: if_splits)
  show "stoi (to_string n) = Inr (int n)" if "n \<le> 2147483647" for n
    using that by (rule stoi_to_string)
next
  fix r assume ok: "URL_parse u = Inr r"
  from ok show "url_scheme r = fst (scheme_split u)"
    by (auto simp: URL_parse_full split: sum.splits)
  from ok show "url_host r = before (CHR '':'') (authority u)"
    by (auto simp: URL_parse_full split: sum.splits)
  show "url_port r = (if url_scheme r = ''https'' then 443 else 80)" if "port_text u = None"
    using ok that by (auto simp: URL_parse_full port_text_def split: sum.splits if_splits)
  show "stoi ps = Inr (url_port r)" if "port_text u = Some ps" for ps
    using ok that by (auto simp: URL_parse_full port_text_def split: sum.splits if_splits)
  from ok have parts: "url_path r = fst (url_parts (path_rest u))"
    "url_query r = fst (snd (url_parts (path_rest u)))"
    "url_fragment r = snd (snd (url_parts (path_rest u)))"
    by (auto simp: URL_parse_full split: sum.splits)
  show "spec_path_step (path_rest u) r"
    if "\<not> (CHR ''?'' \<in> set (path_rest u)
          \<and> CHR ''#'' \<in> set (before (CHR ''?'') (path_rest u)))"
    using that parts by (rule url_parts_spec)
  assume first: "CHR ''?'' \<in> set (path_rest u)
    \<and> CHR ''#'' \<in> set (before (CHR ''?'') (path_rest u)) \<and> length u < 2 ^ 64"
  have "length (path_rest u) \<le> length (snd (scheme_split u))"
    unfolding path_rest_def by (rule length_dropWhile_le)
  also have "\<dots> \<le> length u"
    by (simp add: scheme_split_def split: option.splits)
  finally have "length (path_rest u) < 2 ^ 64" using first by simp
  with first have up: "url_parts (path_rest u) = (before (CHR ''?'') (path_rest u),
      after (CHR ''?'') (path_rest u), after (CHR ''#'') (path_rest u))"
    by (intro url_parts_fragment_first) simp_all
  show "url_path r = before (CHR ''?'') (path_rest u)"
    "url_query r = after (CHR ''?'') (path_rest u)"
    "url_fragment r = after (CHR ''#'') (path_rest u)"
    unfolding parts up by simp_all
qed

lemma URL_parse_steps_example:
  "\<exists>r. URL_parse ''https://example.org/a?b#c'' = Inr r \<and> url_scheme r = ''https''
      \<and> url_host r = ''example.org'' \<and> url_port r = 443
      \<and> url_path r = ''/a'' \<and> url_query r = ''b'' \<and> url_fragment r = ''c''"
proof -
  let ?u = "''https://example.org/a?b#c''"
  have pt: "port_text ?u = None" by code_simp
  have sch: "fst (scheme_split ?u) = ''https''" by code_simp
  have host: "before (CHR '':'') (authority ?u) = ''example.org''" by code_simp
  have rest: "path_rest ?u = ''/a?b#c''" by code_simp
  have order: "\<not> (CHR ''?'' \<in> set (path_rest ?u)
      \<and> CHR ''#'' \<in> set (before (CHR ''?'') (path_rest ?u)))"
    unfolding rest by (simp add: before_def)
  from URL_parse_steps[of ?u] pt obtain r where r: "URL_parse ?u = Inr r"
    by blast
  with URL_parse_steps[of ?u] pt order
  have "url_scheme r = fst (scheme_split ?u)" "url_host r = before (CHR '':'') (authority ?u)"
    "url_port r = (if url_scheme r = ''https'' then 443 else 80)"
    "spec_path_step (path_rest ?u) r"
    by blast+
  then have "url_scheme r = ''https''" "url_host r = ''example.org''" "url_port r = 443"
    "url_path r = ''/a''" "url_query r = ''b''" "url_fragment r = ''c''"
    unfolding sch host rest by (simp_all add: spec_path_step_def before_def after_def)
  with r show ?thesis by blast
qed


section \<open>Cookie parsing\<close>

lemma ffno_None: "find_first_not_of s cs = None \<longleftrightarrow> (\<forall>x \<in> set s. x \<in> set cs)"
  by (induction s) auto

lemma ffno_Some:
  "find_first_not_of s cs = Some k \<Longrightarrow> k = length (takeWhile (\<lambda>x. x \<in> set cs) s)"
proof (induction s arbitrary: k)
  case Nil
  then show ?case by simp
next
  case (Cons x xs)
  then show ?case by (cases "x \<in> set cs") auto
qed

lemma flno_None: "find_last_not_of s cs = None \<longleftrightarrow> (\<forall>x \<in> set s. x \<in> set cs)"
  by (induction s) (auto split: option.splits)

lemma flno_Some:
  "find_last_not_of s cs = Some e \<Longrightarrow>
     e < length s \<and> take (Suc e) s = rev (dropWhile (\<lambda>x. x \<in> set cs) (rev s))"
proof (induction s arbitrary: e)
  case Nil
  then show ?case by simp
next
  case (Cons x xs)
  show ?case
  proof (cases "find_last_not_of xs cs")
    case None
    with Cons.prems have e: "e = 0" and x: "x \<notin> set cs"
      by (auto split: if_splits)
    from None have "\<forall>y \<in> set (rev xs). y \<in> set cs"
      by (simp add: flno_None)
    then have "dropWhile (\<lambda>x. x \<in> set cs) (rev xs @ [x]) = dropWhile (\<lambda>x. x \<in> set cs) [x]"
      by (intro dropWhile_append2) simp
    with e x show ?thesis by simp
  next
    case (Some k)
    with Cons.prems have e: "e = Suc k" by simp
    from Some have "\<not> (\<forall>y \<in> set xs. y \<in> set cs)"
      using flno_None[of xs cs] by simp
    then obtain y where "y \<in> set (rev xs)" "\<not> y \<in> set cs" by auto
    then have "dropWhile (\<lambda>x. x \<in> set cs) (rev xs @ [x])
        = dropWhile (\<lambda>x. x \<in> set cs) (rev xs) @ [x]"
      by (rule dropWhile_append1)
    with Cons.IH[OF Some] e show ?thesis by simp
  qed
qed

lemma trim_eq: "trim s = Inr (strip s)"
proof (cases "find_first_not_of s whitespace")
  case None
  then have "\<forall>x \<in> set (rev s). is_ws x"
    by (simp add: ffno_None is_ws_def)
  then have dw: "dropWhile is_ws (rev s) = []"
    by simp
  show ?thesis
    unfolding trim_def strip_def dw using None by simp
next
  case (Some start)
  let ?P = "\<lambda>x. x \<in> set whitespace"
  have P: "is_ws = ?P" by (rule ext) (simp add: is_ws_def)
  from Some have nonws: "\<not> (\<forall>x \<in> set s. ?P x)"
    using ffno_None[of s whitespace] by simp
  then obtain e where e: "find_last_not_of s whitespace = Some e"
    using flno_None[of s whitespace] by (cases "find_last_not_of s whitespace") auto
  define X where "X = rev (dropWhile ?P (rev s))"
  from flno_Some[OF e] have elen: "e < length s" and X: "take (Suc e) s = X"
    by (simp_all add: X_def)
  have start: "start = length (takeWhile ?P s)"
    using ffno_Some[OF Some] .
  have sX: "s = X @ drop (Suc e) s"
    using X by (metis append_take_drop_id)
  have Xnon: "\<exists>y \<in> set X. \<not> ?P y"
  proof -
    from nonws have "\<exists>y \<in> set (rev s). \<not> ?P y" by simp
    then have "dropWhile ?P (rev s) \<noteq> []" by simp
    then have "\<not> ?P (hd (dropWhile ?P (rev s)))" by (rule hd_dropWhile)
    moreover from \<open>dropWhile ?P (rev s) \<noteq> []\<close> have "hd (dropWhile ?P (rev s)) \<in> set X"
      by (simp add: X_def)
    ultimately show ?thesis by blast
  qed
  then obtain y where y: "y \<in> set X" "\<not> ?P y" by blast
  have "takeWhile ?P s = takeWhile ?P (X @ drop (Suc e) s)"
    using sX by simp
  also have "\<dots> = takeWhile ?P X"
    using y by (rule takeWhile_append1)
  finally have tw: "takeWhile ?P s = takeWhile ?P X" .
  have lt: "start < Suc e"
  proof -
    have "length (takeWhile ?P X) \<le> length X" by (rule length_takeWhile_le)
    moreover have "length (takeWhile ?P X) \<noteq> length X"
    proof
      assume "length (takeWhile ?P X) = length X"
      then have "takeWhile ?P X = X"
        by (metis takeWhile_dropWhile_id append_eq_conv_conj drop_all order_refl append_Nil2)
      with y show False
        by (simp)
    qed
    moreover have "length X = Suc e" using X elen by (metis length_take min.absorb2 Suc_leI)
    ultimately show ?thesis using start tw by simp
  qed
  have "take (size_sub e start + 1) (drop start s) = drop start (take (Suc e) s)"
    using lt by (simp add: size_sub_def drop_take Suc_diff_le)
  also have "\<dots> = drop (length (takeWhile ?P X)) X"
    using X start tw by simp
  also have "\<dots> = dropWhile ?P X"
    by (simp add: dropWhile_eq_drop)
  finally have "take (size_sub e start + 1) (drop start s) = strip s"
    by (simp add: strip_def P X_def)
  moreover have "start \<le> length s" using lt elen by simp
  ultimately show ?thesis
    using Some e by (simp add: trim_def substr_in_range)
qed


lemma find_str_zero: "find_str s p = Some 0 \<longleftrightarrow> starts_with s p"
  by (cases s) (auto simp: starts_with_def)

lemma starts_with_length: "starts_with s p \<Longrightarrow> length p \<le> length s"
proof -
  assume "starts_with s p"
  then have "length (take (length p) s) = length p"
    by (simp add: starts_with_def)
  then show ?thesis by simp
qed

lemma parse_name_value_eq: "parse_name_value c item = Inr (spec_name_value c item)"
proof (cases rule: find_char_cases[of item "CHR ''=''"])
  case absent
  then show ?thesis
    by (simp add: parse_name_value_def spec_name_value_def)
next
  case (found k)
  then show ?thesis
    by (simp add: parse_name_value_def spec_name_value_def substr_in_range
        substr_from_in_range trim_eq)
qed

lemma substr_from_prefix:
  "starts_with item p \<Longrightarrow> n = length p \<Longrightarrow> substr_from item n = Inr (drop (length p) item)"
  by (simp add: substr_from_in_range starts_with_length)

lemma parse_attribute_eq: "parse_attribute c item = Inr (spec_attribute c item)"
proof -
  have len: "7 = length ''Domain=''" "5 = length ''Path=''" "9 = length ''SameSite=''"
    by simp_all
  note sub = substr_from_prefix[OF _ len(1)] substr_from_prefix[OF _ len(2)]
    substr_from_prefix[OF _ len(3)]
  have secure: "\<not> starts_with ''Secure'' ''SameSite=''" "\<not> starts_with ''HttpOnly'' ''SameSite=''"
    by (simp_all add: starts_with_def)
  show ?thesis
  proof (cases "starts_with item ''Domain=''")
    case True
    with sub(1)[OF True] show ?thesis
      by (simp add: parse_attribute_def spec_attribute_def find_str_zero)
  next
    case nd: False
    show ?thesis
    proof (cases "starts_with item ''Path=''")
      case True
      with nd sub(2)[OF True] show ?thesis
        by (simp add: parse_attribute_def spec_attribute_def find_str_zero)
    next
      case np: False
      show ?thesis
      proof (cases "starts_with item ''SameSite=''")
        case True
        with secure have "item \<noteq> ''Secure''" "item \<noteq> ''HttpOnly''" by auto
        with nd np True sub(3)[OF True] show ?thesis
          by (simp add: parse_attribute_def spec_attribute_def find_str_zero)
      next
        case False
        with nd np show ?thesis
          by (simp add: parse_attribute_def spec_attribute_def find_str_zero)
      qed
    qed
  qed
qed

lemma split_on_nonempty: "split_on d s \<noteq> []"
  by (induction s) (auto split: list.splits)

lemma split_on_absent: "d \<notin> set s \<Longrightarrow> split_on d s = [s]"
  by (induction s) (auto split: list.splits)

lemma split_on_found:
  "d \<in> set s \<Longrightarrow> split_on d s = before d s # split_on d (after d s)"
proof (induction s)
  case Nil
  then show ?case by simp
next
  case (Cons x xs)
  show ?case
  proof (cases "x = d")
    case True
    then show ?thesis by (simp add: before_def after_def)
  next
    case False
    with Cons.prems have "d \<in> set xs" by simp
    from Cons.IH[OF this] False show ?thesis
      by (simp add: before_def after_def split: list.splits)
  qed
qed

lemma spec_attribute_empty: "spec_attribute c [] = c"
  by (simp add: spec_attribute_def starts_with_def)

lemma strip_empty: "strip [] = []"
  by (simp add: strip_def)

lemma parse_attributes_bad: "parse_attributes (buf, False) c = Inr c"
  by (subst parse_attributes.simps) (simp add: getline_def)

lemma parse_attributes_eq:
  "parse_attributes (s, True) c
     = Inr (foldl spec_attribute c (map strip (split_on (CHR '';'') s)))"
proof (induction "length s" arbitrary: s c rule: less_induct)
  case less
  show ?case
  proof (cases rule: find_char_cases[of s "CHR '';''"])
    case absent
    show ?thesis
    proof (cases "s = []")
      case True
      then show ?thesis
        by (subst parse_attributes.simps)
          (simp add: getline_def strip_empty spec_attribute_empty)
    next
      case False
      with absent show ?thesis
        by (subst parse_attributes.simps)
          (simp add: getline_def trim_eq parse_attribute_eq parse_attributes_bad
            split_on_absent)
    qed
  next
    case (found k)
    from found(2) have "length (drop (Suc k) s) < length s"
      by simp
    then have "length (after (CHR '';'') s) < length s"
      by (simp only: found(4))
    from less[OF this] found show ?thesis
      by (subst parse_attributes.simps)
        (simp add: getline_def trim_eq parse_attribute_eq split_on_found)
  qed
qed

lemma Cookie_parse_eq: "Cookie_parse s = Inr (Cookie_parse_spec s)"
proof (cases rule: find_char_cases[of s "CHR '';''"])
  case absent
  show ?thesis
  proof (cases "s = []")
    case True
    then show ?thesis
      by (simp add: Cookie_parse_def Cookie_parse_spec_def getline_def parse_attributes_bad
          spec_name_value_def)
  next
    case False
    with absent show ?thesis
      by (simp add: Cookie_parse_def Cookie_parse_spec_def getline_def parse_attributes_bad
          parse_name_value_eq split_on_absent)
  qed
next
  case (found k)
  then show ?thesis
    by (simp add: Cookie_parse_def Cookie_parse_spec_def getline_def parse_attributes_eq
        parse_name_value_eq split_on_found)
qed

text \<open>
  C6. For every Set-Cookie string \<open>Cookie::parse\<close> returns the cookie the
  specification describes (\<open>Cookie_parse_spec\<close>): split on \<open>;\<close>, first segment
  \<open>name=value\<close> with both sides trimmed, each further trimmed segment matched
  case-sensitively against the prefixes \<open>Domain=\<close>, \<open>Path=\<close>, \<open>SameSite=\<close> and the
  flags \<open>Secure\<close>, \<open>HttpOnly\<close>, every other segment ignored. The example of the
  specification evaluates as stated.
\<close>

theorem Cookie_parse_refines_spec:
  "Cookie_parse s = Inr (Cookie_parse_spec s)
   \<and> Cookie_parse ''sid=abc123; Domain=example.com; Path=/; Secure; HttpOnly''
     = Inr \<lparr>cookie_name = ''sid'', cookie_value = ''abc123'',
            cookie_domain = ''example.com'', cookie_path = ''/'',
            cookie_secure = True, cookie_httpOnly = True, cookie_sameSite = []\<rparr>"
proof
  show "Cookie_parse s = Inr (Cookie_parse_spec s)" by (rule Cookie_parse_eq)
  show "Cookie_parse ''sid=abc123; Domain=example.com; Path=/; Secure; HttpOnly''
     = Inr \<lparr>cookie_name = ''sid'', cookie_value = ''abc123'',
            cookie_domain = ''example.com'', cookie_path = ''/'',
            cookie_secure = True, cookie_httpOnly = True, cookie_sameSite = []\<rparr>"
    by (simp add: Cookie_parse_eq Cookie_parse_spec_def spec_name_value_def spec_attribute_def
      strip_def is_ws_def whitespace_def before_def after_def starts_with_def Cookie_init_def)
qed

theorem Cookie_parse_refines_spec_witness:
  "Cookie_parse '' id = 7 ;secure; SameSite=Lax ;Max-Age=60;''
     = Inr \<lparr>cookie_name = ''id'', cookie_value = ''7'', cookie_domain = [],
            cookie_path = [], cookie_secure = False, cookie_httpOnly = False,
            cookie_sameSite = ''Lax''\<rparr>"
  using Cookie_parse_refines_spec[of "'' id = 7 ;secure; SameSite=Lax ;Max-Age=60;''"]
  by (simp add: Cookie_parse_spec_def spec_name_value_def spec_attribute_def
      strip_def is_ws_def whitespace_def before_def after_def starts_with_def Cookie_init_def)

section \<open>Which parsers can raise\<close>

text \<open>
  C2, as stated, fails: \<open>URL::parse\<close> raises \<open>std::invalid_argument\<close> on a
  port that is not a number.
\<close>

theorem URL_parse_invalid_port_raises:
  "URL_parse ''http://example.com:abc/x'' = Inl InvalidArgument"
  by code_simp

text \<open>
  C2, amended. \<open>UrlEncoder::decode\<close> and \<open>Cookie::parse\<close> return a result for every
  input string (\<open>UrlEncoder::encode\<close> has no raising operation at all and is a plain
  function). \<open>URL::parse\<close> raises exactly when the authority holds a colon and
  \<open>std::stoi\<close> raises on the text after it, with the exception of \<open>std::stoi\<close>;
  it returns a result exactly when the authority has no colon or \<open>std::stoi\<close>
  accepts the text after the first one.
\<close>

theorem parsers_total_except_port:
  "(\<exists>r. decode s = Inr r) \<and> (\<exists>c. Cookie_parse s = Inr c)
   \<and> (URL_parse s = Inl e \<longleftrightarrow> (\<exists>ps. port_text s = Some ps \<and> stoi ps = Inl e))
   \<and> ((\<exists>r. URL_parse s = Inr r) \<longleftrightarrow>
        (port_text s = None \<or> (\<exists>ps n. port_text s = Some ps \<and> stoi ps = Inr n)))"
proof (intro conjI)
  show "\<exists>r. decode s = Inr r" by (simp add: decode_eq_list)
  show "\<exists>c. Cookie_parse s = Inr c" by (simp add: Cookie_parse_eq)
  show "URL_parse s = Inl e \<longleftrightarrow> (\<exists>ps. port_text s = Some ps \<and> stoi ps = Inl e)"
    by (auto simp: URL_parse_full port_text_def split: sum.splits if_splits)
  show "(\<exists>r. URL_parse s = Inr r) \<longleftrightarrow>
        (port_text s = None \<or> (\<exists>ps n. port_text s = Some ps \<and> stoi ps = Inr n))"
    by (auto simp: URL_parse_full port_text_def split: sum.splits if_splits)
qed

theorem parsers_total_except_port_witness:
  "(\<exists>r. URL_parse ''http://example.com:8080/x'' = Inr r)
   \<and> (\<exists>r. decode ''100%'' = Inr r) \<and> (\<exists>c. Cookie_parse ''=;;'' = Inr c)"
proof -
  have "port_text ''http://example.com:8080/x'' = Some ''8080''" by code_simp
  moreover have "stoi ''8080'' = Inr 8080" by code_simp
  ultimately show ?thesis
    using parsers_total_except_port[of "''http://example.com:8080/x''"]
      parsers_total_except_port[of "''100%''"] parsers_total_except_port[of "''=;;''"]
    by blast
qed

section \<open>Properties of the response's cookie lookup\<close>

lemma hasCookie_loop_iff: "hasCookie_loop cs n \<longleftrightarrow> (\<exists>c \<in> set cs. cookie_name c = n)"
  by (induction cs) auto

lemma getCookie_loop_absent:
  "\<not> hasCookie_loop cs n \<Longrightarrow> getCookie_loop cs n = Cookie_init"
  by (induction cs) (auto split: if_splits)

text \<open>
  C10. When no stored cookie has the name asked for, \<open>getCookie\<close> returns the
  default-constructed cookie (all strings empty, both flags false) and raises
  nothing. A caller cannot tell this from a stored cookie equal to the default
  one: a response that stores the default cookie (whose name is empty) and a
  response that stores no cookie answer \<open>getCookie("")\<close> alike.
\<close>

theorem getCookie_absent_default:
  "((\<forall>c \<in> set (res_cookies r). cookie_name c \<noteq> n) \<longrightarrow>
      getCookie r n =
        \<lparr>cookie_name = [], cookie_value = [], cookie_domain = [], cookie_path = [],
         cookie_secure = False, cookie_httpOnly = False, cookie_sameSite = []\<rparr>)
   \<and> hasCookie (HttpResponse_init\<lparr>res_cookies := [Cookie_init]\<rparr>) []
   \<and> \<not> hasCookie HttpResponse_init []
   \<and> getCookie (HttpResponse_init\<lparr>res_cookies := [Cookie_init]\<rparr>) []
       = getCookie HttpResponse_init []"
proof -
  have absent: "getCookie r n = Cookie_init"
    if "\<forall>c \<in> set (res_cookies r). cookie_name c \<noteq> n"
  proof -
    from that have "\<not> hasCookie_loop (res_cookies r) n"
      by (simp add: hasCookie_loop_iff)
    then show ?thesis
      unfolding getCookie_def by (rule getCookie_loop_absent)
  qed
  have stored: "hasCookie (HttpResponse_init\<lparr>res_cookies := [Cookie_init]\<rparr>) []"
    by (simp add: hasCookie_def Cookie_init_def)
  have none: "\<not> hasCookie HttpResponse_init []"
    by (simp add: hasCookie_def HttpResponse_init_def)
  have same: "getCookie (HttpResponse_init\<lparr>res_cookies := [Cookie_init]\<rparr>) []
      = getCookie HttpResponse_init []"
    by (simp add: getCookie_def HttpResponse_init_def Cookie_init_def)
  from absent stored none same show ?thesis
    by (simp add: Cookie_init_def)
qed

theorem getCookie_absent_default_witness:
  "getCookie (HttpResponse_init\<lparr>res_cookies := [Cookie_of ''sid'' ''abc'']\<rparr>) ''theme''
     = \<lparr>cookie_name = [], cookie_value = [], cookie_domain = [], cookie_path = [],
        cookie_secure = False, cookie_httpOnly = False, cookie_sameSite = []\<rparr>"
  using getCookie_absent_default
    [of "HttpResponse_init\<lparr>res_cookies := [Cookie_of ''sid'' ''abc'']\<rparr>" "''theme''"]
  by (simp add: Cookie_of_def Cookie_init_def)

section \<open>Response headers and the request builder\<close>

lemma tolower_upper: "\<forall>c \<in> set ''ABCDEFGHIJKLMNOPQRSTUVWXYZ''. tolower c = lower_byte c"
  by code_simp

lemma upper_set: "CHR ''A'' \<le> c \<and> c \<le> CHR ''Z'' \<longleftrightarrow> c \<in> set ''ABCDEFGHIJKLMNOPQRSTUVWXYZ''"
proof
  assume "CHR ''A'' \<le> c \<and> c \<le> CHR ''Z''"
  then have "65 \<le> (of_char c :: nat)" "(of_char c :: nat) < 91"
    by (simp_all add: less_eq_char_def)
  then have "c \<in> set (map char_of [65..<91::nat])" by (rule in_code_range)
  then show "c \<in> set ''ABCDEFGHIJKLMNOPQRSTUVWXYZ''" by (simp only: upper_codes)
next
  assume "c \<in> set ''ABCDEFGHIJKLMNOPQRSTUVWXYZ''"
  with upper_range show "CHR ''A'' \<le> c \<and> c \<le> CHR ''Z''" by (rule bspec)
qed

lemma lower_byte_other:
  assumes "c \<notin> set ''ABCDEFGHIJKLMNOPQRSTUVWXYZ''"
  shows "lower_byte c = c"
proof -
  have "map fst (zip ''ABCDEFGHIJKLMNOPQRSTUVWXYZ'' ''abcdefghijklmnopqrstuvwxyz'')
      = ''ABCDEFGHIJKLMNOPQRSTUVWXYZ''"
    by (rule map_fst_zip) simp
  then have "fst ` set (zip ''ABCDEFGHIJKLMNOPQRSTUVWXYZ'' ''abcdefghijklmnopqrstuvwxyz'')
      = set ''ABCDEFGHIJKLMNOPQRSTUVWXYZ''"
    by (simp only: set_map[symmetric])
  with assms have "map_of (zip ''ABCDEFGHIJKLMNOPQRSTUVWXYZ'' ''abcdefghijklmnopqrstuvwxyz'') c = None"
    by (simp only: map_of_eq_None_iff not_False_eq_True)
  then show ?thesis by (simp only: lower_byte_def option.case)
qed

lemma tolower_lower_byte: "tolower c = lower_byte c"
proof (cases "c \<in> set ''ABCDEFGHIJKLMNOPQRSTUVWXYZ''")
  case True
  with tolower_upper show ?thesis by (rule bspec)
next
  case False
  then have "\<not> (CHR ''A'' \<le> c \<and> c \<le> CHR ''Z'')" by (simp only: upper_set not_False_eq_True)
  then have "tolower c = c" unfolding tolower_def by (rule if_not_P)
  with lower_byte_other[OF False] show ?thesis by simp
qed

lemma toLower_lowercase: "toLower s = lowercase s"
  by (simp add: toLower_def lowercase_def tolower_lower_byte)

lemma setHeader_eq:
  "setHeader r key v =
     Inr (if lowercase key = ''set-cookie''
          then r\<lparr>res_headers := AList.update (lowercase key) v (res_headers r),
                 res_cookies := res_cookies r @ [Cookie_parse_spec v]\<rparr>
          else r\<lparr>res_headers := AList.update (lowercase key) v (res_headers r)\<rparr>)"
  by (simp add: setHeader_def Cookie_parse_eq toLower_lowercase Let_def)

lemma upd_then_add: "m(k \<mapsto> v) ++ X = m ++ ([k \<mapsto> v] ++ X)"
  by (rule ext) (simp add: map_add_def split: option.splits)

lemma setHeaders_eq:
  "\<exists>r'. setHeaders r kvs = Inr r'
     \<and> map_of (res_headers r')
         = map_of (res_headers r) ++ map_of (rev (map (\<lambda>kv. (lowercase (fst kv), snd kv)) kvs))
     \<and> res_cookies r'
         = res_cookies r @ map (\<lambda>kv. Cookie_parse_spec (snd kv))
             (filter (\<lambda>kv. lowercase (fst kv) = ''set-cookie'') kvs)
     \<and> res_body r' = res_body r \<and> res_statusCode r' = res_statusCode r
     \<and> res_statusMessage r' = res_statusMessage r"
proof (induction kvs arbitrary: r)
  case Nil
  then show ?case by simp
next
  case (Cons kv kvs)
  obtain key v where kv: "kv = (key, v)" by (cases kv)
  define r1 where "r1 = (if lowercase key = ''set-cookie''
          then r\<lparr>res_headers := AList.update (lowercase key) v (res_headers r),
                 res_cookies := res_cookies r @ [Cookie_parse_spec v]\<rparr>
          else r\<lparr>res_headers := AList.update (lowercase key) v (res_headers r)\<rparr>)"
  have step: "setHeaders r (kv # kvs) = setHeaders r1 kvs"
    by (simp add: kv setHeader_eq r1_def)
  have h1: "map_of (res_headers r1) = (map_of (res_headers r))(lowercase key \<mapsto> v)"
    by (simp add: r1_def update_conv')
  have c1: "res_cookies r1 = res_cookies r @
      (if lowercase key = ''set-cookie'' then [Cookie_parse_spec v] else [])"
    by (simp add: r1_def)
  have o1: "res_body r1 = res_body r" "res_statusCode r1 = res_statusCode r"
    "res_statusMessage r1 = res_statusMessage r"
    by (simp_all add: r1_def)
  from Cons.IH[of r1] obtain r' where r': "setHeaders r1 kvs = Inr r'"
    "map_of (res_headers r')
       = map_of (res_headers r1) ++ map_of (rev (map (\<lambda>kv. (lowercase (fst kv), snd kv)) kvs))"
    "res_cookies r' = res_cookies r1 @ map (\<lambda>kv. Cookie_parse_spec (snd kv))
             (filter (\<lambda>kv. lowercase (fst kv) = ''set-cookie'') kvs)"
    "res_body r' = res_body r1" "res_statusCode r' = res_statusCode r1"
    "res_statusMessage r' = res_statusMessage r1"
    by blast
  have rv: "map_of (rev (map (\<lambda>kv. (lowercase (fst kv), snd kv)) (kv # kvs)))
      = [lowercase key \<mapsto> v] ++ map_of (rev (map (\<lambda>kv. (lowercase (fst kv), snd kv)) kvs))"
    by (simp add: kv)
  have "map_of (res_headers r')
      = map_of (res_headers r) ++ map_of (rev (map (\<lambda>kv. (lowercase (fst kv), snd kv)) (kv # kvs)))"
    unfolding r'(2) h1 rv by (rule upd_then_add)
  moreover have "res_cookies r' = res_cookies r @ map (\<lambda>kv. Cookie_parse_spec (snd kv))
             (filter (\<lambda>kv. lowercase (fst kv) = ''set-cookie'') (kv # kvs))"
    unfolding r'(3) c1 by (simp add: kv)
  ultimately show ?case
    using step r'(1,4,5,6) o1 by simp
qed


text \<open>
  C5. For every response and every sequence of \<open>setHeader\<close> calls: no call fails;
  afterwards the header map is the old one overridden by the calls' values under the
  keys in lower case (\<open>lowercase\<close>: the letters \<open>A\<close> to \<open>Z\<close> replaced by \<open>a\<close> to \<open>z\<close>,
  every other byte kept), the last call for a key winning; and the cookie list is the
  old one followed by one parsed cookie per call whose key in lower case is
  \<open>set-cookie\<close>, in call order. Storing \<open>Set-Cookie: a=1\<close> then \<open>Set-Cookie: b=2\<close> on a
  fresh response gives the two cookies, while the header itself keeps the last value.
\<close>

theorem setHeader_sequence:
  "(\<exists>r'. setHeaders r kvs = Inr r'
      \<and> map_of (res_headers r')
          = map_of (res_headers r) ++ map_of (rev (map (\<lambda>kv. (lowercase (fst kv), snd kv)) kvs))
      \<and> map Inr (res_cookies r')
          = map Inr (res_cookies r) @ map (\<lambda>kv. Cookie_parse (snd kv))
              (filter (\<lambda>kv. lowercase (fst kv) = ''set-cookie'') kvs))
   \<and> (\<exists>r'. setHeaders HttpResponse_init [(''Set-Cookie'', ''a=1''), (''Set-Cookie'', ''b=2'')]
          = Inr r'
      \<and> res_cookies r' = [Cookie_of ''a'' ''1'', Cookie_of ''b'' ''2'']
      \<and> map_of (res_headers r') ''set-cookie'' = Some ''b=2'')"
proof
  from setHeaders_eq[of r kvs] obtain r' where r': "setHeaders r kvs = Inr r'"
    "map_of (res_headers r')
       = map_of (res_headers r) ++ map_of (rev (map (\<lambda>kv. (lowercase (fst kv), snd kv)) kvs))"
    "res_cookies r' = res_cookies r @ map (\<lambda>kv. Cookie_parse_spec (snd kv))
             (filter (\<lambda>kv. lowercase (fst kv) = ''set-cookie'') kvs)"
    by blast
  from r'(3) have "map Inr (res_cookies r')
          = map Inr (res_cookies r) @ map (\<lambda>kv. Cookie_parse (snd kv))
              (filter (\<lambda>kv. lowercase (fst kv) = ''set-cookie'') kvs)"
    by (simp add: Cookie_parse_eq comp_def)
  with r'(1,2) show "\<exists>r'. setHeaders r kvs = Inr r'
      \<and> map_of (res_headers r')
          = map_of (res_headers r) ++ map_of (rev (map (\<lambda>kv. (lowercase (fst kv), snd kv)) kvs))
      \<and> map Inr (res_cookies r')
          = map Inr (res_cookies r) @ map (\<lambda>kv. Cookie_parse (snd kv))
              (filter (\<lambda>kv. lowercase (fst kv) = ''set-cookie'') kvs)"
    by blast
next
  have low: "lowercase ''Set-Cookie'' = ''set-cookie''" by code_simp
  have a: "Cookie_parse_spec ''a=1'' = Cookie_of ''a'' ''1''"
    by (simp add: Cookie_parse_spec_def spec_name_value_def strip_def is_ws_def whitespace_def
        before_def after_def Cookie_of_def)
  have b: "Cookie_parse_spec ''b=2'' = Cookie_of ''b'' ''2''"
    by (simp add: Cookie_parse_spec_def spec_name_value_def strip_def is_ws_def whitespace_def
        before_def after_def Cookie_of_def)
  show "\<exists>r'. setHeaders HttpResponse_init [(''Set-Cookie'', ''a=1''), (''Set-Cookie'', ''b=2'')]
          = Inr r'
      \<and> res_cookies r' = [Cookie_of ''a'' ''1'', Cookie_of ''b'' ''2'']
      \<and> map_of (res_headers r') ''set-cookie'' = Some ''b=2''"
    by (simp add: setHeader_eq low a b HttpResponse_init_def)
qed

theorem setHeader_sequence_witness:
  "\<exists>r'. setHeaders HttpResponse_init
        [(''Content-Type'', ''text/html''), (''SET-COOKIE'', ''k=v; Secure''),
         (''content-type'', ''text/plain'')] = Inr r'
     \<and> map_of (res_headers r') ''content-type'' = Some ''text/plain''
     \<and> map Inr (res_cookies r') = [Cookie_parse ''k=v; Secure'']"
proof -
  have low1: "lowercase ''Content-Type'' = ''content-type''" by code_simp
  have low2: "lowercase ''SET-COOKIE'' = ''set-cookie''" by code_simp
  have low3: "lowercase ''content-type'' = ''content-type''" by code_simp
  note low = low1 low2 low3
  let ?kvs = "[(''Content-Type'', ''text/html''), (''SET-COOKIE'', ''k=v; Secure''),
        (''content-type'', ''text/plain'')]"
  from setHeader_sequence[of HttpResponse_init ?kvs, THEN conjunct1]
  obtain r' where r': "setHeaders HttpResponse_init ?kvs = Inr r'
    \<and> map_of (res_headers r') = map_of (res_headers HttpResponse_init)
        ++ map_of (rev (map (\<lambda>kv. (lowercase (fst kv), snd kv)) ?kvs))
    \<and> map Inr (res_cookies r') = map Inr (res_cookies HttpResponse_init)
        @ map (\<lambda>kv. Cookie_parse (snd kv)) (filter (\<lambda>kv. lowercase (fst kv) = ''set-cookie'') ?kvs)"
    by (rule exE)
  note r1 = r'[THEN conjunct1] and r2 = r'[THEN conjunct2, THEN conjunct1]
    and r3 = r'[THEN conjunct2, THEN conjunct2]
  have h: "map_of (res_headers r') ''content-type'' = Some ''text/plain''"
    unfolding r2 by (simp add: low HttpResponse_init_def)
  have c: "map Inr (res_cookies r') = [Cookie_parse ''k=v; Secure'']"
    unfolding r3 by (simp add: low HttpResponse_init_def)
  show ?thesis
    by (rule exI[of _ r']) (intro conjI r1 h c)
qed

lemma getHeader_content_length:
  "getHeader r ''content-length''
     = (case map_of (res_headers r) ''content-length'' of Some v \<Rightarrow> v | None \<Rightarrow> [])"
proof -
  have "toLower ''content-length'' = ''content-length''" by code_simp
  then show ?thesis by (simp add: getHeader_def)
qed

text \<open>
  C7, as stated, fails: with the header \<open>content-length: abc\<close> and the body
  \<open>hello\<close>, \<open>getContentLength\<close> returns 0 and not the body length 5.
\<close>

theorem getContentLength_unparsable_zero:
  "getContentLength (HttpResponse_init\<lparr>res_headers := [(''content-length'', ''abc'')],
      res_body := ''hello''\<rparr>) = 0
   \<and> length (res_body (HttpResponse_init\<lparr>res_headers := [(''content-length'', ''abc'')],
      res_body := ''hello''\<rparr>)) = 5"
proof -
  have "stoull ''abc'' = Inl InvalidArgument" by code_simp
  then show ?thesis
    by (simp add: getContentLength_def getHeader_content_length)
qed

text \<open>
  C7, amended. \<open>getContentLength\<close> returns the body length when the
  \<open>content-length\<close> header is absent or empty; the number \<open>std::stoull\<close> reads
  when the header is non-empty and \<open>std::stoull\<close> accepts it; and 0 when the header
  is non-empty and \<open>std::stoull\<close> raises. \<open>std::stoull\<close> reads every decimal
  rendering of a number below \<open>2^64\<close> as that number.
\<close>

theorem getContentLength_cases:
  "(map_of (res_headers r) ''content-length'' = None
      \<or> map_of (res_headers r) ''content-length'' = Some []
      \<longrightarrow> getContentLength r = length (res_body r))
   \<and> (\<forall>v n. map_of (res_headers r) ''content-length'' = Some v \<and> v \<noteq> [] \<and> stoull v = Inr n
        \<longrightarrow> getContentLength r = n)
   \<and> (\<forall>v e. map_of (res_headers r) ''content-length'' = Some v \<and> v \<noteq> [] \<and> stoull v = Inl e
        \<longrightarrow> getContentLength r = 0)
   \<and> (\<forall>n. n < 2 ^ 64 \<longrightarrow> stoull (to_string n) = Inr n)"
proof (intro conjI allI impI)
  assume "map_of (res_headers r) ''content-length'' = None
      \<or> map_of (res_headers r) ''content-length'' = Some []"
  then show "getContentLength r = length (res_body r)"
    by (auto simp: getContentLength_def getHeader_content_length)
next
  fix v n
  assume "map_of (res_headers r) ''content-length'' = Some v \<and> v \<noteq> [] \<and> stoull v = Inr n"
  then show "getContentLength r = n"
    by (simp add: getContentLength_def getHeader_content_length)
next
  fix v e
  assume "map_of (res_headers r) ''content-length'' = Some v \<and> v \<noteq> [] \<and> stoull v = Inl e"
  then show "getContentLength r = 0"
    by (simp add: getContentLength_def getHeader_content_length)
next
  fix n :: nat
  assume "n < 2 ^ 64"
  then show "stoull (to_string n) = Inr n" by (rule stoull_to_string)
qed

theorem getContentLength_cases_witness:
  "getContentLength (HttpResponse_init\<lparr>res_headers := [(''content-length'', ''42'')],
      res_body := ''hello''\<rparr>) = 42
   \<and> getContentLength (HttpResponse_init\<lparr>res_body := ''hello''\<rparr>) = 5"
proof -
  let ?r = "HttpResponse_init\<lparr>res_headers := [(''content-length'', ''42'')],
      res_body := ''hello''\<rparr>"
  have ts: "to_string 42 = ''42''" by code_simp
  have "(42::nat) < 2 ^ 64" by simp
  with getContentLength_cases[of ?r] have "stoull (to_string 42) = Inr 42"
    by (elim conjE allE[of _ "42::nat"]) simp
  then have st: "stoull ''42'' = Inr 42" by (simp only: ts)
  have hd: "map_of (res_headers ?r) ''content-length'' = Some ''42'' \<and> ''42'' \<noteq> []
      \<and> stoull ''42'' = Inr 42"
    using st by (simp add: HttpResponse_init_def)
  from getContentLength_cases[of ?r, THEN conjunct2, THEN conjunct1, rule_format, OF hd]
  have a: "getContentLength ?r = 42" .
  have "map_of (res_headers (HttpResponse_init\<lparr>res_body := ''hello''\<rparr>)) ''content-length'' = None
      \<or> map_of (res_headers (HttpResponse_init\<lparr>res_body := ''hello''\<rparr>)) ''content-length'' = Some []"
    by (simp add: HttpResponse_init_def)
  from getContentLength_cases[of "HttpResponse_init\<lparr>res_body := ''hello''\<rparr>", THEN conjunct1,
      rule_format, OF this]
  have b: "getContentLength (HttpResponse_init\<lparr>res_body := ''hello''\<rparr>) = 5"
    by (simp add: HttpResponse_init_def)
  from a b show ?thesis by (rule conjI)
qed

text \<open>
  C8, as stated, fails: \<open>setBody\<close> on a builder without headers leaves
  \<open>Content-Type\<close> unset.
\<close>

theorem setBody_leaves_content_type:
  "map_of (rb_headers (setBody (RequestBuilder_init POST ''http://example.com/'') ''x''))
     ''Content-Type'' = None"
  by (simp add: setBody_def addHeader_def RequestBuilder_init_def update_conv')

text \<open>
  C8, amended. \<open>setBody(b)\<close> stores \<open>b\<close> as the body and, when \<open>b\<close> is non-empty,
  sets \<open>Content-Length\<close> to the decimal length of \<open>b\<close>; it changes no other header,
  so \<open>Content-Type\<close> stays as it was. The shortcut \<open>setJsonBody\<close> sets
  \<open>Content-Type: application/json\<close> and then calls \<open>setBody\<close>.
\<close>

theorem setBody_effect:
  "rb_body (setBody b body) = body
   \<and> map_of (rb_headers (setBody b body))
       = (if body = [] then map_of (rb_headers b)
          else (map_of (rb_headers b))(''Content-Length'' \<mapsto> to_string (length body)))
   \<and> map_of (rb_headers (setBody b body)) ''Content-Type''
       = map_of (rb_headers b) ''Content-Type''
   \<and> dec_value (to_string (length body)) = length body
   \<and> (\<forall>c \<in> set (to_string (length body)). is_digit c)
   \<and> rb_body (setJsonBody b body) = body
   \<and> map_of (rb_headers (setJsonBody b body)) ''Content-Type'' = Some ''application/json''"
proof (intro conjI)
  show "rb_body (setBody b body) = body"
    by (simp add: setBody_def addHeader_def Let_def)
  show hs: "map_of (rb_headers (setBody b body))
       = (if body = [] then map_of (rb_headers b)
          else (map_of (rb_headers b))(''Content-Length'' \<mapsto> to_string (length body)))"
    by (simp add: setBody_def addHeader_def Let_def update_conv')
  show "map_of (rb_headers (setBody b body)) ''Content-Type''
       = map_of (rb_headers b) ''Content-Type''"
    unfolding hs by simp
  show "dec_value (to_string (length body)) = length body"
    using to_string_digits[of "length body"] by simp
  show "\<forall>c \<in> set (to_string (length body)). is_digit c"
    using to_string_digits[of "length body"] by simp
  show "rb_body (setJsonBody b body) = body"
    by (simp add: setJsonBody_def setBody_def addHeader_def setContentType_def Let_def)
  show "map_of (rb_headers (setJsonBody b body)) ''Content-Type'' = Some ''application/json''"
    by (simp add: setJsonBody_def setBody_def addHeader_def setContentType_def Let_def
        update_conv')
qed

theorem setBody_effect_witness:
  "map_of (rb_headers (setBody (RequestBuilder_init POST ''http://example.com/'') ''hello world''))
     ''Content-Length'' = Some ''11''
   \<and> rb_body (setBody (RequestBuilder_init POST ''http://example.com/'') ''hello world'')
     = ''hello world''"
proof -
  have ts: "to_string (length ''hello world'') = ''11''" by code_simp
  note e = setBody_effect[of "RequestBuilder_init POST ''http://example.com/''" "''hello world''"]
  have "map_of (rb_headers (setBody (RequestBuilder_init POST ''http://example.com/'')
      ''hello world'')) ''Content-Length'' = Some ''11''"
    unfolding e[THEN conjunct2, THEN conjunct1] ts by simp
  with e[THEN conjunct1] show ?thesis by simp
qed

lemma join_snoc: "join sep (xs @ [x]) = (if xs = [] then x else join sep xs @ sep @ x)"
  by (induction sep xs rule: join.induct) auto

lemma cookieHeader_loop_join:
  "i \<le> length cs \<Longrightarrow>
   cookieHeader_loop cs i (join ''; '' (map (\<lambda>c. cookie_name c @ ''='' @ cookie_value c) (take i cs)))
     = join ''; '' (map (\<lambda>c. cookie_name c @ ''='' @ cookie_value c) cs)"
proof (induction "length cs - i" arbitrary: i)
  case 0
  then show ?case by (subst cookieHeader_loop.simps) simp
next
  case (Suc d)
  then have lt: "i < length cs" by simp
  then have tk: "take (Suc i) cs = take i cs @ [cs ! i]"
    by (simp add: take_Suc_conv_app_nth)
  from lt have e: "take i cs = [] \<longleftrightarrow> i = 0" by auto
  from Suc(2) lt have "d = length cs - Suc i" by simp
  from Suc(1)[OF this] lt
  have "cookieHeader_loop cs (Suc i)
          (join ''; '' (map (\<lambda>c. cookie_name c @ ''='' @ cookie_value c) (take (Suc i) cs)))
        = join ''; '' (map (\<lambda>c. cookie_name c @ ''='' @ cookie_value c) cs)"
    by simp
  then have step: "cookieHeader_loop cs (i + 1)
          ((if 0 < i
            then join ''; '' (map (\<lambda>c. cookie_name c @ ''='' @ cookie_value c) (take i cs)) @ ''; ''
            else join ''; '' (map (\<lambda>c. cookie_name c @ ''='' @ cookie_value c) (take i cs)))
           @ cookie_name (cs ! i) @ ''='' @ cookie_value (cs ! i))
        = join ''; '' (map (\<lambda>c. cookie_name c @ ''='' @ cookie_value c) cs)"
    unfolding tk using e by (cases "i = 0") (simp_all add: join_snoc)
  show ?case
    by (subst cookieHeader_loop.simps) (simp only: lt if_True step)
qed

text \<open>
  C9. When the builder holds at least one cookie, the request \<open>build()\<close> returns has
  the \<open>Cookie\<close> header \<open>name=value; name=value; ...\<close> over the builder's cookies in
  their order; \<open>addCookie\<close> appends, so that order is the insertion order.
\<close>

theorem build_cookie_header:
  "(rb_cookies b \<noteq> [] \<longrightarrow>
      map_of (req_headers (build b)) ''Cookie''
        = Some (join ''; '' (map (\<lambda>c. cookie_name c @ ''='' @ cookie_value c) (rb_cookies b))))
   \<and> rb_cookies (foldl addCookie b cs) = rb_cookies b @ cs"
proof
  show "rb_cookies b \<noteq> [] \<longrightarrow>
      map_of (req_headers (build b)) ''Cookie''
        = Some (join ''; '' (map (\<lambda>c. cookie_name c @ ''='' @ cookie_value c) (rb_cookies b)))"
    using cookieHeader_loop_join[of 0 "rb_cookies b"]
    by (simp add: build_def req_setHeader_def Let_def update_conv')
  show "rb_cookies (foldl addCookie b cs) = rb_cookies b @ cs"
    by (induction cs arbitrary: b) (simp_all add: addCookie_def)
qed

theorem build_cookie_header_witness:
  "map_of (req_headers (build (foldl addCookie (RequestBuilder_init GET ''http://example.com/'')
       [Cookie_of ''a'' ''1'', Cookie_of ''b'' ''2'', Cookie_of ''c'' ''3''])))
     ''Cookie'' = Some ''a=1; b=2; c=3''"
proof -
  let ?b = "foldl addCookie (RequestBuilder_init GET ''http://example.com/'')
       [Cookie_of ''a'' ''1'', Cookie_of ''b'' ''2'', Cookie_of ''c'' ''3'']"
  have cs: "rb_cookies ?b = [Cookie_of ''a'' ''1'', Cookie_of ''b'' ''2'', Cookie_of ''c'' ''3'']"
    using build_cookie_header[of "RequestBuilder_init GET ''http://example.com/''"
        "[Cookie_of ''a'' ''1'', Cookie_of ''b'' ''2'', Cookie_of ''c'' ''3'']", THEN conjunct2]
    by (simp add: RequestBuilder_init_def)
  then have "rb_cookies ?b \<noteq> []" by simp
  from build_cookie_header[of ?b, THEN conjunct1, rule_format, OF this]
  show ?thesis
    unfolding cs by (simp add: Cookie_of_def Cookie_init_def)
qed

end
